theory Spec2Isabelle
  imports Main
begin

section \<open>The collaborators of the file manager\<close>

text \<open>
  \<^verbatim>\<open>FileManager\<close> (src/src/FileManager.ts) is constructed over three injected interfaces:
  \<^verbatim>\<open>IFileSystemExplorer\<close>, \<^verbatim>\<open>IFileSystemManipulator\<close> and \<^verbatim>\<open>IRandomProvider\<close>. Their
  implementations are not part of the class, and the unit tests replace them by mocks whose
  answers depend on how often they were called before. The model therefore keeps a log of
  every call the class makes to a collaborator, in order, and lets each collaborator answer
  as a function of the log so far and of the arguments. The log grows with every call, so
  any sequence of answers is the behaviour of some such function.

  Where the class does not catch what a method throws, the thrown value leaves the calling
  method as it is and is never inspected; the model names it by its message: \<open>Inl msg\<close>
  where the method also returns a value, \<open>Some msg\<close> where it returns \<^verbatim>\<open>void\<close>.

  The three primitives \<^verbatim>\<open>copy\<close>, \<^verbatim>\<open>move\<close> and \<^verbatim>\<open>delete\<close> are called inside \<^verbatim>\<open>try\<close>, and the handler
  \<^verbatim>\<open>catch (e: any)\<close> reads \<^verbatim>\<open>e.message\<close>. So their answer is an \<open>outcome\<close>: the primitive
  returns, or it throws a value whose \<^verbatim>\<open>message\<close> is a string, or it throws \<^verbatim>\<open>null\<close> or
  \<^verbatim>\<open>undefined\<close>, of which no property can be read.

  Answers are values: a collaborator does not call back into the class while it is asked,
  and does not keep and change an array it has returned. \<^verbatim>\<open>nextInt\<close> answers with an
  integer.
  \<^verbatim>\<open>isDirectory\<close> is never called by the class and is left out. \<^verbatim>\<open>path.join\<close> belongs to
  Node's library; it is pure, and the model takes it as the parameter \<open>path_join\<close>.
\<close>

datatype call =
    CallListEntries string
  | CallExists string
  | CallCopy string string
  | CallMove string string
  | CallDelete string
  | CallCreateDirectory string
  | CallNextInt nat

type_synonym history = "call list"

datatype outcome = Done | Throws string | ThrowsNullish

record env =
  explorer_listEntries :: "history \<Rightarrow> string \<Rightarrow> string + string list"
  explorer_exists :: "history \<Rightarrow> string \<Rightarrow> string + bool"
  manipulator_copy :: "history \<Rightarrow> string \<Rightarrow> string \<Rightarrow> outcome"
  manipulator_move :: "history \<Rightarrow> string \<Rightarrow> string \<Rightarrow> outcome"
  manipulator_delete :: "history \<Rightarrow> string \<Rightarrow> outcome"
  manipulator_createDirectory :: "history \<Rightarrow> string \<Rightarrow> string option"
  random_nextInt :: "history \<Rightarrow> nat \<Rightarrow> string + int"
  path_join :: "string \<Rightarrow> string \<Rightarrow> string"

section \<open>Data model\<close>

datatype operationType = OpCopy | OpMove | OpDelete

record fileOperationError =
  fileName :: string
  errorMessage :: string
  operationType :: operationType

record operationResult =
  destinationPath :: "string option"
  errors :: "fileOperationError list"

text \<open>
  What a public method can throw: the two errors the class raises itself, an error of a
  collaborator that the class does not catch, the \<^verbatim>\<open>TypeError\<close> of \<^verbatim>\<open>path.join\<close> when
  \<^verbatim>\<open>this.currentDirectory!\<close> is \<^verbatim>\<open>null\<close> at run time, and the \<^verbatim>\<open>TypeError\<close> of reading
  \<^verbatim>\<open>e.message\<close> in a handler whose \<^verbatim>\<open>e\<close> is \<^verbatim>\<open>null\<close> or \<^verbatim>\<open>undefined\<close>.
\<close>

datatype error =
    NothingSelected
  | NotFound string
  | Thrown string
  | NullDirectory
  | MessageOfNullish

text \<open>
  The three private fields. A JavaScript \<^verbatim>\<open>Set\<close> iterates in insertion order, so
  \<open>selectedEntries\<close> is the list of its members in that order; \<open>set_add\<close> and \<open>set_delete\<close>
  are \<^verbatim>\<open>Set.prototype.add\<close> and \<^verbatim>\<open>Set.prototype.delete\<close> on that list.
\<close>

record file_manager =
  currentDirectory :: "string option"
  entries :: "string list"
  selectedEntries :: "string list"

definition initial :: file_manager where
  "initial = \<lparr>currentDirectory = None, entries = [], selectedEntries = []\<rparr>"

definition set_add :: "string \<Rightarrow> string list \<Rightarrow> string list" where
  "set_add x xs = (if x \<in> set xs then xs else xs @ [x])"

definition set_delete :: "string \<Rightarrow> string list \<Rightarrow> string list" where
  "set_delete x xs = filter (\<lambda>y. y \<noteq> x) xs"

definition ADJECTIVES :: "string list" where
  "ADJECTIVES =
    [''grand'', ''petit'', ''rouge'', ''bleu'', ''vert'',
     ''rapide'', ''lent'', ''brillant'', ''sombre'', ''clair'',
     ''ancien'', ''nouveau'', ''fort'', ''doux'', ''vif'',
     ''calme'', ''noble'', ''simple'', ''rare'', ''libre'']"

definition NOUNS :: "string list" where
  "NOUNS =
    [''soleil'', ''lune'', ''etoile'', ''montagne'', ''riviere'',
     ''foret'', ''ocean'', ''desert'', ''jardin'', ''chateau'',
     ''dragon'', ''phoenix'', ''tigre'', ''aigle'', ''dauphin'',
     ''cristal'', ''diamant'', ''saphir'', ''rubis'', ''emeraude'']"

text \<open>
  \<^verbatim>\<open>WORDS[i]\<close> inside a template literal: an index outside the array reads \<^verbatim>\<open>undefined\<close>,
  which the template prints as the word "undefined".
\<close>

definition word_at :: "string list \<Rightarrow> int \<Rightarrow> string" where
  "word_at ws i = (if 0 \<le> i \<and> nat i < length ws then ws ! nat i else ''undefined'')"

text \<open>The decimal digits of the counter, as the template literal prints them.\<close>

fun decimal :: "nat \<Rightarrow> string" where
  "decimal n =
     (if n < 10 then [''0123456789'' ! n]
      else decimal (n div 10) @ [''0123456789'' ! (n mod 10)])"

declare decimal.simps [simp del]

section \<open>Enumeration and selection\<close>

text \<open>
  \<^verbatim>\<open>listEntries\<close>, lines 87 to 92: the directory is assigned first, then the Explorer is
  asked; if it throws, the two assignments after it do not happen.
\<close>

definition listEntries ::
  "env \<Rightarrow> string \<Rightarrow> file_manager \<Rightarrow> history \<Rightarrow> (error + string list) \<times> file_manager \<times> history"
where
  "listEntries env directoryPath fm h =
     (let fm1 = fm\<lparr>currentDirectory := Some directoryPath\<rparr>;
          h1 = h @ [CallListEntries directoryPath]
      in case explorer_listEntries env h directoryPath of
           Inl msg \<Rightarrow> (Inl (Thrown msg), fm1, h1)
         | Inr es \<Rightarrow> (Inr es, fm1\<lparr>entries := es, selectedEntries := []\<rparr>, h1))"

definition getEntries :: "file_manager \<Rightarrow> string list" where
  "getEntries fm = entries fm"

definition getCurrentDirectory :: "file_manager \<Rightarrow> string option" where
  "getCurrentDirectory fm = currentDirectory fm"

definition select :: "string \<Rightarrow> file_manager \<Rightarrow> (error + unit) \<times> file_manager" where
  "select entryName fm =
     (if entryName \<notin> set (entries fm) then (Inl (NotFound entryName), fm)
      else (Inr (), fm\<lparr>selectedEntries := set_add entryName (selectedEntries fm)\<rparr>))"

definition deselect :: "string \<Rightarrow> file_manager \<Rightarrow> file_manager" where
  "deselect entryName fm = fm\<lparr>selectedEntries := set_delete entryName (selectedEntries fm)\<rparr>"

definition selectAll :: "file_manager \<Rightarrow> file_manager" where
  "selectAll fm =
     fm\<lparr>selectedEntries := foldl (\<lambda>sel e. set_add e sel) (selectedEntries fm) (entries fm)\<rparr>"

definition deselectAll :: "file_manager \<Rightarrow> file_manager" where
  "deselectAll fm = fm\<lparr>selectedEntries := []\<rparr>"

definition getSelectedEntries :: "file_manager \<Rightarrow> string list" where
  "getSelectedEntries fm = selectedEntries fm"

definition isSelected :: "string \<Rightarrow> file_manager \<Rightarrow> bool" where
  "isSelected entryName fm \<longleftrightarrow> entryName \<in> set (selectedEntries fm)"

section \<open>Destination resolution\<close>

text \<open>
  The \<^verbatim>\<open>for\<close> loop of \<^verbatim>\<open>resolveDestination\<close>, lines 240 to 248, from the attempt counter
  \<open>attempt\<close> and the current value of the variable \<open>name\<close>. It ends by a thrown error, by
  the \<^verbatim>\<open>return fullPath\<close> of a free candidate, or by running out of attempts with the last
  name generated.
\<close>

datatype attempt_result = Threw error | Free string | Exhausted string

function attempts ::
  "env \<Rightarrow> string option \<Rightarrow> nat \<Rightarrow> string \<Rightarrow> history \<Rightarrow> attempt_result \<times> history"
where
  "attempts env cd attempt name h =
     (if attempt < 10 then
        (case random_nextInt env h (length ADJECTIVES) of
           Inl msg \<Rightarrow> (Threw (Thrown msg), h @ [CallNextInt (length ADJECTIVES)])
         | Inr i \<Rightarrow>
            (let h1 = h @ [CallNextInt (length ADJECTIVES)]
             in case random_nextInt env h1 (length NOUNS) of
                  Inl msg \<Rightarrow> (Threw (Thrown msg), h1 @ [CallNextInt (length NOUNS)])
                | Inr j \<Rightarrow>
                   (let h2 = h1 @ [CallNextInt (length NOUNS)];
                        name' = word_at ADJECTIVES i @ ''-'' @ word_at NOUNS j
                    in case cd of
                         None \<Rightarrow> (Threw NullDirectory, h2)
                       | Some d \<Rightarrow>
                          (let fullPath = path_join env d name';
                               h3 = h2 @ [CallExists fullPath]
                           in case explorer_exists env h2 fullPath of
                                Inl msg \<Rightarrow> (Threw (Thrown msg), h3)
                              | Inr taken \<Rightarrow>
                                 if \<not> taken then (Free fullPath, h3)
                                 else attempts env cd (attempt + 1) name' h3))))
      else (Exhausted name, h))"
  by pat_completeness auto
termination
  by (relation "measure (\<lambda>(env, cd, attempt, name, h). 10 - attempt)") auto

declare attempts.simps [simp del]

text \<open>
  The \<^verbatim>\<open>do ... while\<close> loop, lines 251 to 258, from the value of \<open>counter\<close>. Nothing bounds
  it: while the Explorer keeps answering that the numbered path exists, it does not return,
  which is the value \<open>None\<close>. The counter is a \<open>nat\<close>; the source's is a double, exact up to
  \<open>2^53\<close>.
\<close>

partial_function (option) numbering ::
  "env \<Rightarrow> string \<Rightarrow> string \<Rightarrow> nat \<Rightarrow> history \<Rightarrow> ((error + string) \<times> history) option"
where
  "numbering env d name counter h =
     (let numberedName = name @ ''-'' @ decimal counter;
          p = path_join env d numberedName;
          h1 = h @ [CallExists p]
      in case explorer_exists env h p of
           Inl msg \<Rightarrow> Some (Inl (Thrown msg), h1)
         | Inr again \<Rightarrow>
            if again then numbering env d name (counter + 1) h1
            else Some (Inr (path_join env d numberedName), h1))"

declare numbering.simps [code]

text \<open>
  \<^verbatim>\<open>resolveDestination\<close>, lines 234 to 259, with the optional parameter as \<open>destination\<close>
  and \<^verbatim>\<open>this.currentDirectory\<close> as \<open>cd\<close>. The test \<^verbatim>\<open>if (destinationPath)\<close> is a
  truthiness test: \<^verbatim>\<open>undefined\<close> and the empty string both fail it.
\<close>

definition resolveDestination ::
  "env \<Rightarrow> string option \<Rightarrow> string option \<Rightarrow> history \<Rightarrow> ((error + string) \<times> history) option"
where
  "resolveDestination env destination cd h =
     (case destination of
        Some (c # cs) \<Rightarrow> Some (Inr (c # cs), h)
      | _ \<Rightarrow>
         (case attempts env cd 0 [] h of
            (Threw e, h1) \<Rightarrow> Some (Inl e, h1)
          | (Free fullPath, h1) \<Rightarrow> Some (Inr fullPath, h1)
          | (Exhausted name, h1) \<Rightarrow>
             (case cd of
                None \<Rightarrow> Some (Inl NullDirectory, h1)
              | Some d \<Rightarrow> numbering env d name 1 h1)))"

section \<open>Batch operations\<close>

text \<open>
  The \<^verbatim>\<open>for ... of\<close> loops of the three operations over the snapshot of the selection,
  with the local variables \<open>errors\<close> and \<open>succeeded\<close> (and \<^verbatim>\<open>this.entries\<close> where the loop
  assigns it) as accumulators. The loops are entered with a non-empty snapshot and do not
  assign \<^verbatim>\<open>this.currentDirectory\<close>, so a \<^verbatim>\<open>null\<close> directory fails in the first
  \<^verbatim>\<open>path.join\<close>, before any primitive: the operations below test it once, before the loop,
  and the loops take the directory as a string.

  A primitive that returns takes the \<^verbatim>\<open>try\<close> branch to its end. One that throws a value with
  a message takes the handler, which pushes the error record, and the loop goes on. One that
  throws \<^verbatim>\<open>null\<close> or \<^verbatim>\<open>undefined\<close> takes the handler too, but \<^verbatim>\<open>e.message\<close> throws there:
  the loop and the method end with what has been assigned so far. The first component of
  the result tells whether the loop ran to its end.
\<close>

fun copy_loop ::
  "env \<Rightarrow> string \<Rightarrow> string \<Rightarrow> string list \<Rightarrow>
   fileOperationError list \<times> string list \<times> history \<Rightarrow>
   bool \<times> fileOperationError list \<times> string list \<times> history"
where
  "copy_loop env cd resolved [] acc = (True, acc)"
| "copy_loop env cd resolved (entry # rest) (errs, succeeded, h) =
     (let source = path_join env cd entry;
          target = path_join env resolved entry;
          h1 = h @ [CallCopy source target]
      in case manipulator_copy env h source target of
           Done \<Rightarrow> copy_loop env cd resolved rest (errs, succeeded @ [entry], h1)
         | Throws msg \<Rightarrow>
            copy_loop env cd resolved rest
              (errs @ [\<lparr>fileName = entry, errorMessage = msg, operationType = OpCopy\<rparr>],
               succeeded, h1)
         | ThrowsNullish \<Rightarrow> (False, errs, succeeded, h1))"

fun move_loop ::
  "env \<Rightarrow> string \<Rightarrow> string \<Rightarrow> string list \<Rightarrow>
   fileOperationError list \<times> string list \<times> string list \<times> history \<Rightarrow>
   bool \<times> fileOperationError list \<times> string list \<times> string list \<times> history"
where
  "move_loop env cd resolved [] acc = (True, acc)"
| "move_loop env cd resolved (entry # rest) (errs, succeeded, ents, h) =
     (let source = path_join env cd entry;
          target = path_join env resolved entry;
          h1 = h @ [CallMove source target]
      in case manipulator_move env h source target of
           Done \<Rightarrow>
            move_loop env cd resolved rest
              (errs, succeeded @ [entry], filter (\<lambda>e. e \<noteq> entry) ents, h1)
         | Throws msg \<Rightarrow>
            move_loop env cd resolved rest
              (errs @ [\<lparr>fileName = entry, errorMessage = msg, operationType = OpMove\<rparr>],
               succeeded, ents, h1)
         | ThrowsNullish \<Rightarrow> (False, errs, succeeded, ents, h1))"

fun delete_loop ::
  "env \<Rightarrow> string \<Rightarrow> string list \<Rightarrow>
   fileOperationError list \<times> string list \<times> string list \<times> history \<Rightarrow>
   bool \<times> fileOperationError list \<times> string list \<times> string list \<times> history"
where
  "delete_loop env cd [] acc = (True, acc)"
| "delete_loop env cd (entry # rest) (errs, succeeded, ents, h) =
     (let fullPath = path_join env cd entry;
          h1 = h @ [CallDelete fullPath]
      in case manipulator_delete env h fullPath of
           Done \<Rightarrow>
            delete_loop env cd rest
              (errs, succeeded @ [entry], filter (\<lambda>e. e \<noteq> entry) ents, h1)
         | Throws msg \<Rightarrow>
            delete_loop env cd rest
              (errs @ [\<lparr>fileName = entry, errorMessage = msg, operationType = OpDelete\<rparr>],
               succeeded, ents, h1)
         | ThrowsNullish \<Rightarrow> (False, errs, succeeded, ents, h1))"

text \<open>The closing loop \<^verbatim>\<open>for (const s of succeeded) this.selectedEntries.delete(s)\<close>.\<close>

definition delete_succeeded :: "string list \<Rightarrow> string list \<Rightarrow> string list" where
  "delete_succeeded succeeded sel = foldl (\<lambda>acc s. set_delete s acc) sel succeeded"

text \<open>
  \<^verbatim>\<open>copySelection\<close>, lines 138 to 166. An error thrown by \<^verbatim>\<open>resolveDestination\<close> or by
  \<^verbatim>\<open>createDirectory\<close> is not caught and leaves the method; \<open>None\<close> is a resolution that does
  not return. When the handler itself throws, the method ends inside the loop: the closing
  loop over \<open>succeeded\<close> is not run.
\<close>

definition copySelection ::
  "env \<Rightarrow> string option \<Rightarrow> file_manager \<Rightarrow> history \<Rightarrow>
   ((error + operationResult) \<times> file_manager \<times> history) option"
where
  "copySelection env destination fm h =
     (if selectedEntries fm = [] then Some (Inl NothingSelected, fm, h)
      else
        (case resolveDestination env destination (currentDirectory fm) h of
           None \<Rightarrow> None
         | Some (Inl e, h1) \<Rightarrow> Some (Inl e, fm, h1)
         | Some (Inr resolved, h1) \<Rightarrow>
            (let h2 = h1 @ [CallCreateDirectory resolved]
             in case manipulator_createDirectory env h1 resolved of
                  Some msg \<Rightarrow> Some (Inl (Thrown msg), fm, h2)
                | None \<Rightarrow>
                   (case currentDirectory fm of
                      None \<Rightarrow> Some (Inl NullDirectory, fm, h2)
                    | Some cd \<Rightarrow>
                       (case copy_loop env cd resolved (selectedEntries fm) ([], [], h2) of
                          (completed, errs, succeeded, h3) \<Rightarrow>
                            if completed then
                              Some (Inr \<lparr>destinationPath = Some resolved, errors = errs\<rparr>,
                                    fm\<lparr>selectedEntries :=
                                         delete_succeeded succeeded (selectedEntries fm)\<rparr>,
                                    h3)
                            else Some (Inl MessageOfNullish, fm, h3))))))"

text \<open>
  \<^verbatim>\<open>moveSelection\<close>, lines 169 to 197. The loop assigns \<^verbatim>\<open>this.entries\<close> after each move
  that returns, so when the handler throws, the entries filtered so far stay filtered while
  the selection has not been touched.
\<close>

definition moveSelection ::
  "env \<Rightarrow> string option \<Rightarrow> file_manager \<Rightarrow> history \<Rightarrow>
   ((error + operationResult) \<times> file_manager \<times> history) option"
where
  "moveSelection env destination fm h =
     (if selectedEntries fm = [] then Some (Inl NothingSelected, fm, h)
      else
        (case resolveDestination env destination (currentDirectory fm) h of
           None \<Rightarrow> None
         | Some (Inl e, h1) \<Rightarrow> Some (Inl e, fm, h1)
         | Some (Inr resolved, h1) \<Rightarrow>
            (let h2 = h1 @ [CallCreateDirectory resolved]
             in case manipulator_createDirectory env h1 resolved of
                  Some msg \<Rightarrow> Some (Inl (Thrown msg), fm, h2)
                | None \<Rightarrow>
                   (case currentDirectory fm of
                      None \<Rightarrow> Some (Inl NullDirectory, fm, h2)
                    | Some cd \<Rightarrow>
                       (case move_loop env cd resolved (selectedEntries fm)
                               ([], [], entries fm, h2) of
                          (completed, errs, succeeded, ents, h3) \<Rightarrow>
                            if completed then
                              Some (Inr \<lparr>destinationPath = Some resolved, errors = errs\<rparr>,
                                    fm\<lparr>entries := ents,
                                       selectedEntries :=
                                         delete_succeeded succeeded (selectedEntries fm)\<rparr>,
                                    h3)
                            else Some (Inl MessageOfNullish, fm\<lparr>entries := ents\<rparr>, h3))))))"

text \<open>
  \<^verbatim>\<open>deleteSelection\<close>, lines 200 to 224. It has no unbounded loop and always returns or
  throws; the result has no \<open>destinationPath\<close>.
\<close>

definition deleteSelection ::
  "env \<Rightarrow> file_manager \<Rightarrow> history \<Rightarrow> (error + operationResult) \<times> file_manager \<times> history"
where
  "deleteSelection env fm h =
     (if selectedEntries fm = [] then (Inl NothingSelected, fm, h)
      else
        (case currentDirectory fm of
           None \<Rightarrow> (Inl NullDirectory, fm, h)
         | Some cd \<Rightarrow>
            (case delete_loop env cd (selectedEntries fm) ([], [], entries fm, h) of
               (completed, errs, succeeded, ents, h1) \<Rightarrow>
                 if completed then
                   (Inr \<lparr>destinationPath = None, errors = errs\<rparr>,
                    fm\<lparr>entries := ents,
                       selectedEntries := delete_succeeded succeeded (selectedEntries fm)\<rparr>,
                    h1)
                 else (Inl MessageOfNullish, fm\<lparr>entries := ents\<rparr>, h1))))"

section \<open>Sequences of public operations\<close>

datatype operation =
    DoListEntries string
  | DoSelect string
  | DoDeselect string
  | DoSelectAll
  | DoDeselectAll
  | DoCopySelection "string option"
  | DoMoveSelection "string option"
  | DoDeleteSelection

text \<open>
  One call of a public method on the state and the log, whatever it returns or throws;
  \<open>None\<close> when the call does not return.
\<close>

fun perform ::
  "env \<Rightarrow> operation \<Rightarrow> file_manager \<times> history \<Rightarrow> (file_manager \<times> history) option"
where
  "perform env (DoListEntries p) (fm, h) = Some (snd (listEntries env p fm h))"
| "perform env (DoSelect n) (fm, h) = Some (snd (select n fm), h)"
| "perform env (DoDeselect n) (fm, h) = Some (deselect n fm, h)"
| "perform env DoSelectAll (fm, h) = Some (selectAll fm, h)"
| "perform env DoDeselectAll (fm, h) = Some (deselectAll fm, h)"
| "perform env (DoCopySelection d) (fm, h) = map_option snd (copySelection env d fm h)"
| "perform env (DoMoveSelection d) (fm, h) = map_option snd (moveSelection env d fm h)"
| "perform env DoDeleteSelection (fm, h) = Some (snd (deleteSelection env fm h))"

fun perform_all ::
  "env \<Rightarrow> operation list \<Rightarrow> file_manager \<times> history \<Rightarrow> (file_manager \<times> history) option"
where
  "perform_all env [] st = Some st"
| "perform_all env (op # ops) st =
     (case perform env op st of None \<Rightarrow> None | Some st' \<Rightarrow> perform_all env ops st')"

section \<open>Observing a batch\<close>

text \<open>
  The answers the Manipulator gives when a loop runs over all its entries, entry by entry:
  each primitive is asked on the log as the calls for the entries before it have left it.
\<close>

fun copy_answers ::
  "env \<Rightarrow> string \<Rightarrow> string \<Rightarrow> string list \<Rightarrow> history \<Rightarrow> outcome list"
where
  "copy_answers env cd resolved [] h = []"
| "copy_answers env cd resolved (e # es) h =
     manipulator_copy env h (path_join env cd e) (path_join env resolved e) #
     copy_answers env cd resolved es
       (h @ [CallCopy (path_join env cd e) (path_join env resolved e)])"

fun move_answers ::
  "env \<Rightarrow> string \<Rightarrow> string \<Rightarrow> string list \<Rightarrow> history \<Rightarrow> outcome list"
where
  "move_answers env cd resolved [] h = []"
| "move_answers env cd resolved (e # es) h =
     manipulator_move env h (path_join env cd e) (path_join env resolved e) #
     move_answers env cd resolved es
       (h @ [CallMove (path_join env cd e) (path_join env resolved e)])"

fun delete_answers :: "env \<Rightarrow> string \<Rightarrow> string list \<Rightarrow> history \<Rightarrow> outcome list" where
  "delete_answers env cd [] h = []"
| "delete_answers env cd (e # es) h =
     manipulator_delete env h (path_join env cd e) #
     delete_answers env cd es (h @ [CallDelete (path_join env cd e)])"

text \<open>The error records and the succeeded names that a list of entries with answers gives.\<close>

fun failures ::
  "operationType \<Rightarrow> (string \<times> outcome) list \<Rightarrow> fileOperationError list"
where
  "failures kind [] = []"
| "failures kind ((e, Throws msg) # zs) =
     \<lparr>fileName = e, errorMessage = msg, operationType = kind\<rparr> # failures kind zs"
| "failures kind ((e, a) # zs) = failures kind zs"

fun successes :: "(string \<times> outcome) list \<Rightarrow> string list" where
  "successes [] = []"
| "successes ((e, Done) # zs) = e # successes zs"
| "successes ((e, a) # zs) = successes zs"

text \<open>
  The entries a loop has dealt with when it ends: all of them, or those before the first
  primitive that throws \<^verbatim>\<open>null\<close> or \<^verbatim>\<open>undefined\<close>.
\<close>

definition reached :: "(string \<times> outcome) list \<Rightarrow> (string \<times> outcome) list" where
  "reached zs = takeWhile (\<lambda>z. snd z \<noteq> ThrowsNullish) zs"

text \<open>A Manipulator whose primitives, when they throw, throw a value with a message.\<close>

definition throws_with_message :: "env \<Rightarrow> bool" where
  "throws_with_message env \<longleftrightarrow>
     (\<forall>h source target. manipulator_copy env h source target \<noteq> ThrowsNullish) \<and>
     (\<forall>h source target. manipulator_move env h source target \<noteq> ThrowsNullish) \<and>
     (\<forall>h source. manipulator_delete env h source \<noteq> ThrowsNullish)"

text \<open>The calls that consult the Explorer about existence or draw from the Random Provider.\<close>

fun consults :: "call \<Rightarrow> bool" where
  "consults (CallExists p) = True"
| "consults (CallNextInt m) = True"
| "consults c = False"

fun is_exists :: "call \<Rightarrow> bool" where
  "is_exists (CallExists p) = True"
| "is_exists c = False"

fun is_draw :: "call \<Rightarrow> bool" where
  "is_draw (CallNextInt m) = True"
| "is_draw c = False"

section \<open>Observing destination resolution\<close>

text \<open>
  For indices \<open>a k\<close> and \<open>n k\<close> drawn in attempt \<open>k\<close>: the candidate name of that attempt,
  the three calls the attempt makes, and the log after the first \<open>k\<close> attempts. \<open>numbered\<close>
  is the path probed for a value of the counter.
\<close>

definition candidate :: "(nat \<Rightarrow> int) \<Rightarrow> (nat \<Rightarrow> int) \<Rightarrow> nat \<Rightarrow> string" where
  "candidate a n k = word_at ADJECTIVES (a k) @ ''-'' @ word_at NOUNS (n k)"

definition attempt_calls ::
  "env \<Rightarrow> string \<Rightarrow> (nat \<Rightarrow> int) \<Rightarrow> (nat \<Rightarrow> int) \<Rightarrow> nat \<Rightarrow> call list"
where
  "attempt_calls env d a n k =
     [CallNextInt (length ADJECTIVES), CallNextInt (length NOUNS),
      CallExists (path_join env d (candidate a n k))]"

definition log_after ::
  "env \<Rightarrow> string \<Rightarrow> (nat \<Rightarrow> int) \<Rightarrow> (nat \<Rightarrow> int) \<Rightarrow> history \<Rightarrow> nat \<Rightarrow> history"
where
  "log_after env d a n h k = h @ concat (map (attempt_calls env d a n) [0..<k])"

definition numbered :: "env \<Rightarrow> string \<Rightarrow> string \<Rightarrow> nat \<Rightarrow> string" where
  "numbered env d name counter = path_join env d (name @ ''-'' @ decimal counter)"

text \<open>
  \<open>drawn\<close>: in attempt \<open>k\<close>, reached after \<open>k\<close> attempts with the indices of \<open>a\<close> and \<open>n\<close>,
  the Random Provider returns \<open>a k\<close> and then \<open>n k\<close>. \<open>candidate_exists\<close> is the Explorer's
  answer to the existence check of that attempt.
\<close>

definition drawn ::
  "env \<Rightarrow> string \<Rightarrow> (nat \<Rightarrow> int) \<Rightarrow> (nat \<Rightarrow> int) \<Rightarrow> history \<Rightarrow> nat \<Rightarrow> bool"
where
  "drawn env d a n h k \<longleftrightarrow>
     random_nextInt env (log_after env d a n h k) (length ADJECTIVES) = Inr (a k) \<and>
     random_nextInt env (log_after env d a n h k @ [CallNextInt (length ADJECTIVES)])
       (length NOUNS) = Inr (n k)"

definition candidate_exists ::
  "env \<Rightarrow> string \<Rightarrow> (nat \<Rightarrow> int) \<Rightarrow> (nat \<Rightarrow> int) \<Rightarrow> history \<Rightarrow> nat \<Rightarrow> string + bool"
where
  "candidate_exists env d a n h k =
     explorer_exists env
       (log_after env d a n h k @ [CallNextInt (length ADJECTIVES), CallNextInt (length NOUNS)])
       (path_join env d (candidate a n k))"

text \<open>
  The log when the numbering loop, entered on the log \<open>h\<close> with the base name \<open>name\<close>, is
  about to probe the counter \<open>c\<close>, and the Explorer's answer to that probe.
\<close>

definition probe_log :: "env \<Rightarrow> string \<Rightarrow> string \<Rightarrow> history \<Rightarrow> nat \<Rightarrow> history" where
  "probe_log env d name h c = h @ map (\<lambda>i. CallExists (numbered env d name i)) [1..<c]"

definition numbered_exists ::
  "env \<Rightarrow> string \<Rightarrow> string \<Rightarrow> history \<Rightarrow> nat \<Rightarrow> string + bool"
where
  "numbered_exists env d name h c =
     explorer_exists env (probe_log env d name h c) (numbered env d name c)"

section \<open>Test doubles\<close>

text \<open>
  The mocks of the repository's unit tests of \<^verbatim>\<open>FileManager\<close>: the Explorer lists \<open>es\<close> for
  the directory \<open>DIR\<close> and throws for any other path; its \<open>i\<close>-th existence check answers
  \<open>taken ! i\<close>, and \<open>False\<close> once the list is used up; the \<open>i\<close>-th draw returns \<open>draws ! i\<close>, and
  \<open>0\<close> once the list is used up; a primitive throws an error with a message on the sources
  in \<open>failing\<close>. \<open>throwing_null\<close> is the same double with primitives that throw \<^verbatim>\<open>null\<close> on
  the sources in \<open>nullish\<close> and return on every other source.
  \<open>join_slash\<close> is what \<^verbatim>\<open>path.join\<close> gives on the normalised paths and plain names used
  here.
\<close>

definition DIR :: string where
  "DIR = ''/test/dir''"

definition join_slash :: "string \<Rightarrow> string \<Rightarrow> string" where
  "join_slash a b = a @ ''/'' @ b"

definition nth_or :: "'a \<Rightarrow> 'a list \<Rightarrow> nat \<Rightarrow> 'a" where
  "nth_or dflt xs i = (if i < length xs then xs ! i else dflt)"

definition refuse :: "string list \<Rightarrow> string \<Rightarrow> outcome" where
  "refuse failing source = (if source \<in> set failing then Throws ''Permission refusee'' else Done)"

definition refuse_null :: "string list \<Rightarrow> string \<Rightarrow> outcome" where
  "refuse_null nullish source = (if source \<in> set nullish then ThrowsNullish else Done)"

definition mock :: "string list \<Rightarrow> int list \<Rightarrow> bool list \<Rightarrow> string list \<Rightarrow> env" where
  "mock es draws taken failing =
     \<lparr>explorer_listEntries = (\<lambda>h p. if p = DIR then Inr es else Inl ''ENOENT''),
      explorer_exists = (\<lambda>h p. Inr (nth_or False taken (length (filter is_exists h)))),
      manipulator_copy = (\<lambda>h source target. refuse failing source),
      manipulator_move = (\<lambda>h source target. refuse failing source),
      manipulator_delete = (\<lambda>h source. refuse failing source),
      manipulator_createDirectory = (\<lambda>h p. None),
      random_nextInt = (\<lambda>h m. Inr (nth_or 0 draws (length (filter is_draw h)))),
      path_join = join_slash\<rparr>"

definition throwing_null :: "string list \<Rightarrow> string list \<Rightarrow> env" where
  "throwing_null es nullish =
     (mock es [] [] [])
       \<lparr>manipulator_copy := (\<lambda>h source target. refuse_null nullish source),
        manipulator_move := (\<lambda>h source target. refuse_null nullish source),
        manipulator_delete := (\<lambda>h source. refuse_null nullish source)\<rparr>"

definition loaded :: "string list \<Rightarrow> string list \<Rightarrow> file_manager" where
  "loaded es sel = \<lparr>currentDirectory = Some DIR, entries = es, selectedEntries = sel\<rparr>"

section \<open>The selection as a set\<close>

lemma set_set_add: "set (set_add x xs) = insert x (set xs)"
  by (auto simp: set_add_def)

lemma set_set_delete: "set (set_delete x xs) = set xs - {x}"
  by (auto simp: set_delete_def)

lemma distinct_set_add: "distinct xs \<Longrightarrow> distinct (set_add x xs)"
  by (simp add: set_add_def)

lemma distinct_set_delete: "distinct xs \<Longrightarrow> distinct (set_delete x xs)"
  by (simp add: set_delete_def)

lemma delete_succeeded_filter:
  "delete_succeeded succeeded sel = filter (\<lambda>y. y \<notin> set succeeded) sel"
  unfolding delete_succeeded_def
proof (induction succeeded arbitrary: sel)
  case Nil
  show ?case by simp
next
  case (Cons s succeeded)
  have "filter (\<lambda>y. y \<notin> set succeeded) (set_delete s sel) =
        filter (\<lambda>y. y \<notin> set (s # succeeded)) sel"
    by (induction sel) (auto simp: set_delete_def)
  with Cons show ?case by simp
qed

lemma set_selectAll:
  "set (foldl (\<lambda>sel e. set_add e sel) sel es) = set sel \<union> set es"
  by (induction es arbitrary: sel) (auto simp: set_set_add)

lemma distinct_selectAll:
  "distinct sel \<Longrightarrow> distinct (foldl (\<lambda>sel e. set_add e sel) sel es)"
  by (induction es arbitrary: sel) (auto simp: distinct_set_add)

section \<open>What the batch loops compute\<close>

lemma reached_Cons:
  "reached ((e, a) # zs) = (if a = ThrowsNullish then [] else (e, a) # reached zs)"
  by (simp add: reached_def)

lemma reached_all:
  "ThrowsNullish \<notin> set as \<Longrightarrow> reached (zip es as) = zip es as"
  unfolding reached_def by (rule takeWhile_eq_all_conv [THEN iffD2]) (auto dest: set_zip_rightD)

lemma length_reached: "length (reached (zip es as)) \<le> length es"
proof -
  have "length (reached (zip es as)) \<le> length (zip es as)"
    unfolding reached_def by (rule length_takeWhile_le)
  then show ?thesis by simp
qed

lemma copy_loop_eq:
  "copy_loop env cd resolved es (errs, succ, h) =
     (ThrowsNullish \<notin> set (copy_answers env cd resolved es h),
      errs @ failures OpCopy (reached (zip es (copy_answers env cd resolved es h))),
      succ @ successes (reached (zip es (copy_answers env cd resolved es h))),
      h @ map (\<lambda>e. CallCopy (path_join env cd e) (path_join env resolved e))
            (take (Suc (length (reached (zip es (copy_answers env cd resolved es h))))) es))"
proof (induction es arbitrary: errs succ h)
  case Nil
  show ?case by (simp add: reached_def)
next
  case (Cons e es)
  show ?case
    by (cases "manipulator_copy env h (path_join env cd e) (path_join env resolved e)")
       (simp_all add: Cons.IH Let_def reached_Cons)
qed

lemma move_loop_eq:
  "move_loop env cd resolved es (errs, succ, ents, h) =
     (ThrowsNullish \<notin> set (move_answers env cd resolved es h),
      errs @ failures OpMove (reached (zip es (move_answers env cd resolved es h))),
      succ @ successes (reached (zip es (move_answers env cd resolved es h))),
      filter (\<lambda>e. e \<notin> set (successes (reached (zip es (move_answers env cd resolved es h)))))
        ents,
      h @ map (\<lambda>e. CallMove (path_join env cd e) (path_join env resolved e))
            (take (Suc (length (reached (zip es (move_answers env cd resolved es h))))) es))"
proof (induction es arbitrary: errs succ ents h)
  case Nil
  show ?case by (simp add: reached_def)
next
  case (Cons e es)
  show ?case
    by (cases "manipulator_move env h (path_join env cd e) (path_join env resolved e)")
       (simp_all add: Cons.IH Let_def reached_Cons)
qed

lemma delete_loop_eq:
  "delete_loop env cd es (errs, succ, ents, h) =
     (ThrowsNullish \<notin> set (delete_answers env cd es h),
      errs @ failures OpDelete (reached (zip es (delete_answers env cd es h))),
      succ @ successes (reached (zip es (delete_answers env cd es h))),
      filter (\<lambda>e. e \<notin> set (successes (reached (zip es (delete_answers env cd es h))))) ents,
      h @ map (\<lambda>e. CallDelete (path_join env cd e))
            (take (Suc (length (reached (zip es (delete_answers env cd es h))))) es))"
proof (induction es arbitrary: errs succ ents h)
  case Nil
  show ?case by (simp add: reached_def)
next
  case (Cons e es)
  show ?case
    by (cases "manipulator_delete env h (path_join env cd e)")
       (simp_all add: Cons.IH Let_def reached_Cons)
qed

lemma length_copy_answers: "length (copy_answers env cd resolved es h) = length es"
  by (induction es arbitrary: h) auto

lemma length_move_answers: "length (move_answers env cd resolved es h) = length es"
  by (induction es arbitrary: h) auto

lemma length_delete_answers: "length (delete_answers env cd es h) = length es"
  by (induction es arbitrary: h) auto


lemma move_answers_nth:
  "k < length es \<Longrightarrow>
   move_answers env cd resolved es h ! k =
     manipulator_move env
       (h @ map (\<lambda>e. CallMove (path_join env cd e) (path_join env resolved e)) (take k es))
       (path_join env cd (es ! k)) (path_join env resolved (es ! k))"
proof (induction es arbitrary: h k)
  case Nil
  then show ?case by simp
next
  case (Cons e es)
  then show ?case by (cases k) simp_all
qed

lemma delete_answers_nth:
  "k < length es \<Longrightarrow>
   delete_answers env cd es h ! k =
     manipulator_delete env
       (h @ map (\<lambda>e. CallDelete (path_join env cd e)) (take k es))
       (path_join env cd (es ! k))"
proof (induction es arbitrary: h k)
  case Nil
  then show ?case by simp
next
  case (Cons e es)
  then show ?case by (cases k) simp_all
qed

lemma copy_answers_with_message:
  "throws_with_message env \<Longrightarrow> ThrowsNullish \<notin> set (copy_answers env cd resolved es h)"
  by (induction es arbitrary: h) (auto simp: throws_with_message_def eq_commute [of ThrowsNullish])

lemma move_answers_with_message:
  "throws_with_message env \<Longrightarrow> ThrowsNullish \<notin> set (move_answers env cd resolved es h)"
  by (induction es arbitrary: h) (auto simp: throws_with_message_def eq_commute [of ThrowsNullish])

lemma delete_answers_with_message:
  "throws_with_message env \<Longrightarrow> ThrowsNullish \<notin> set (delete_answers env cd es h)"
  by (induction es arbitrary: h) (auto simp: throws_with_message_def eq_commute [of ThrowsNullish])

lemma set_successes: "set (successes zs) = {e. (e, Done) \<in> set zs}"
  by (induction zs rule: successes.induct) auto

lemma set_failures:
  "set (failures kind zs) =
     {\<lparr>fileName = e, errorMessage = msg, operationType = kind\<rparr> | e msg.
        (e, Throws msg) \<in> set zs}"
  by (induction kind zs rule: failures.induct) auto


lemma zip_distinct_answer:
  assumes "distinct es" "length as = length es" "k < length es" "(es ! k, a) \<in> set (zip es as)"
  shows "a = as ! k"
proof -
  from assms(4) obtain j where j: "j < length es" "es ! j = es ! k" "as ! j = a"
    using assms(2) by (auto simp: in_set_zip)
  with assms(1,3) have "j = k" by (simp add: nth_eq_iff_index_eq)
  with j show ?thesis by simp
qed

lemma succeeded_iff:
  assumes "distinct es" "length as = length es" "k < length es"
  shows "es ! k \<in> set (successes (zip es as)) \<longleftrightarrow> as ! k = Done"
proof
  assume "es ! k \<in> set (successes (zip es as))"
  then have "(es ! k, Done) \<in> set (zip es as)" by (simp add: set_successes)
  from zip_distinct_answer [OF assms this] show "as ! k = Done" by simp
next
  assume "as ! k = Done"
  with assms(2,3) have "(es ! k, Done) \<in> set (zip es as)"
    by (auto simp: in_set_zip)
  then show "es ! k \<in> set (successes (zip es as))" by (simp add: set_successes)
qed

lemma failed_recorded:
  assumes "length as = length es" "k < length es" "as ! k = Throws msg"
  shows "\<lparr>fileName = es ! k, errorMessage = msg, operationType = kind\<rparr>
           \<in> set (failures kind (zip es as))"
proof -
  from assms have "(es ! k, Throws msg) \<in> set (zip es as)"
    by (auto simp: in_set_zip)
  then show ?thesis by (auto simp: set_failures)
qed

section \<open>What the batch operations return\<close>


lemma copySelection_completes:
  assumes "selectedEntries fm \<noteq> []"
    and "currentDirectory fm = Some cd"
    and "resolveDestination env dest (Some cd) h = Some (Inr resolved, h1)"
    and "manipulator_createDirectory env h1 resolved = None"
    and "ThrowsNullish \<notin> set (copy_answers env cd resolved (selectedEntries fm)
           (h1 @ [CallCreateDirectory resolved]))"
  shows "copySelection env dest fm h =
     Some (Inr \<lparr>destinationPath = Some resolved,
                errors = failures OpCopy (zip (selectedEntries fm)
                  (copy_answers env cd resolved (selectedEntries fm)
                     (h1 @ [CallCreateDirectory resolved])))\<rparr>,
           fm\<lparr>selectedEntries := filter (\<lambda>e. e \<notin> set (successes (zip (selectedEntries fm)
                  (copy_answers env cd resolved (selectedEntries fm)
                     (h1 @ [CallCreateDirectory resolved]))))) (selectedEntries fm)\<rparr>,
           (h1 @ [CallCreateDirectory resolved]) @
             map (\<lambda>e. CallCopy (path_join env cd e) (path_join env resolved e))
               (selectedEntries fm))"
  using assms
  by (simp add: copySelection_def copy_loop_eq delete_succeeded_filter Let_def reached_all
        length_copy_answers)

lemma moveSelection_completes:
  assumes "selectedEntries fm \<noteq> []"
    and "currentDirectory fm = Some cd"
    and "resolveDestination env dest (Some cd) h = Some (Inr resolved, h1)"
    and "manipulator_createDirectory env h1 resolved = None"
    and "ThrowsNullish \<notin> set (move_answers env cd resolved (selectedEntries fm)
           (h1 @ [CallCreateDirectory resolved]))"
  shows "moveSelection env dest fm h =
     Some (Inr \<lparr>destinationPath = Some resolved,
                errors = failures OpMove (zip (selectedEntries fm)
                  (move_answers env cd resolved (selectedEntries fm)
                     (h1 @ [CallCreateDirectory resolved])))\<rparr>,
           fm\<lparr>entries := filter (\<lambda>e. e \<notin> set (successes (zip (selectedEntries fm)
                  (move_answers env cd resolved (selectedEntries fm)
                     (h1 @ [CallCreateDirectory resolved]))))) (entries fm),
              selectedEntries := filter (\<lambda>e. e \<notin> set (successes (zip (selectedEntries fm)
                  (move_answers env cd resolved (selectedEntries fm)
                     (h1 @ [CallCreateDirectory resolved]))))) (selectedEntries fm)\<rparr>,
           (h1 @ [CallCreateDirectory resolved]) @
             map (\<lambda>e. CallMove (path_join env cd e) (path_join env resolved e))
               (selectedEntries fm))"
  using assms
  by (simp add: moveSelection_def move_loop_eq delete_succeeded_filter Let_def reached_all
        length_move_answers)

lemma deleteSelection_completes:
  assumes "selectedEntries fm \<noteq> []"
    and "currentDirectory fm = Some cd"
    and "ThrowsNullish \<notin> set (delete_answers env cd (selectedEntries fm) h)"
  shows "deleteSelection env fm h =
     (Inr \<lparr>destinationPath = None,
           errors = failures OpDelete (zip (selectedEntries fm)
             (delete_answers env cd (selectedEntries fm) h))\<rparr>,
      fm\<lparr>entries := filter (\<lambda>e. e \<notin> set (successes (zip (selectedEntries fm)
             (delete_answers env cd (selectedEntries fm) h)))) (entries fm),
         selectedEntries := filter (\<lambda>e. e \<notin> set (successes (zip (selectedEntries fm)
             (delete_answers env cd (selectedEntries fm) h)))) (selectedEntries fm)\<rparr>,
      h @ map (\<lambda>e. CallDelete (path_join env cd e)) (selectedEntries fm))"
  using assms
  by (simp add: deleteSelection_def delete_loop_eq delete_succeeded_filter Let_def reached_all
        length_delete_answers)

lemma moveSelection_Inr:
  assumes "moveSelection env dest fm h = Some (Inr res, fm', h')"
  shows "\<exists>cd resolved h1.
           currentDirectory fm = Some cd \<and>
           resolveDestination env dest (Some cd) h = Some (Inr resolved, h1) \<and>
           manipulator_createDirectory env h1 resolved = None \<and>
           res = \<lparr>destinationPath = Some resolved,
                  errors = failures OpMove (zip (selectedEntries fm)
                    (move_answers env cd resolved (selectedEntries fm)
                       (h1 @ [CallCreateDirectory resolved])))\<rparr> \<and>
           entries fm' = filter (\<lambda>e. e \<notin> set (successes (zip (selectedEntries fm)
                    (move_answers env cd resolved (selectedEntries fm)
                       (h1 @ [CallCreateDirectory resolved]))))) (entries fm) \<and>
           selectedEntries fm' = filter (\<lambda>e. e \<notin> set (successes (zip (selectedEntries fm)
                    (move_answers env cd resolved (selectedEntries fm)
                       (h1 @ [CallCreateDirectory resolved]))))) (selectedEntries fm) \<and>
           currentDirectory fm' = currentDirectory fm \<and>
           h' = (h1 @ [CallCreateDirectory resolved]) @
                map (\<lambda>e. CallMove (path_join env cd e) (path_join env resolved e))
                  (selectedEntries fm)"
  using assms
  by (auto simp: moveSelection_def move_loop_eq delete_succeeded_filter Let_def reached_all
           length_move_answers
           split: if_splits option.splits sum.splits prod.splits)

lemma copySelection_Inr:
  assumes "copySelection env dest fm h = Some (Inr res, fm', h')"
  shows "\<exists>cd resolved h1.
           currentDirectory fm = Some cd \<and>
           resolveDestination env dest (Some cd) h = Some (Inr resolved, h1) \<and>
           manipulator_createDirectory env h1 resolved = None \<and>
           res = \<lparr>destinationPath = Some resolved,
                  errors = failures OpCopy (zip (selectedEntries fm)
                    (copy_answers env cd resolved (selectedEntries fm)
                       (h1 @ [CallCreateDirectory resolved])))\<rparr> \<and>
           entries fm' = entries fm \<and>
           selectedEntries fm' = filter (\<lambda>e. e \<notin> set (successes (zip (selectedEntries fm)
                    (copy_answers env cd resolved (selectedEntries fm)
                       (h1 @ [CallCreateDirectory resolved]))))) (selectedEntries fm) \<and>
           currentDirectory fm' = currentDirectory fm \<and>
           h' = (h1 @ [CallCreateDirectory resolved]) @
                map (\<lambda>e. CallCopy (path_join env cd e) (path_join env resolved e))
                  (selectedEntries fm)"
  using assms
  by (auto simp: copySelection_def copy_loop_eq delete_succeeded_filter Let_def reached_all
           length_copy_answers
           split: if_splits option.splits sum.splits prod.splits)

lemma deleteSelection_Inr:
  assumes "deleteSelection env fm h = (Inr res, fm', h')"
  shows "\<exists>cd.
           currentDirectory fm = Some cd \<and>
           res = \<lparr>destinationPath = None,
                  errors = failures OpDelete (zip (selectedEntries fm)
                    (delete_answers env cd (selectedEntries fm) h))\<rparr> \<and>
           entries fm' = filter (\<lambda>e. e \<notin> set (successes (zip (selectedEntries fm)
                    (delete_answers env cd (selectedEntries fm) h)))) (entries fm) \<and>
           selectedEntries fm' = filter (\<lambda>e. e \<notin> set (successes (zip (selectedEntries fm)
                    (delete_answers env cd (selectedEntries fm) h)))) (selectedEntries fm) \<and>
           currentDirectory fm' = currentDirectory fm \<and>
           h' = h @ map (\<lambda>e. CallDelete (path_join env cd e)) (selectedEntries fm)"
  using assms
  by (auto simp: deleteSelection_def delete_loop_eq delete_succeeded_filter Let_def reached_all
           length_delete_answers
           split: if_splits option.splits sum.splits prod.splits)

lemma copySelection_Inl:
  "copySelection env dest fm h = Some (Inl e, fm', h') \<Longrightarrow> fm' = fm"
  by (auto simp: copySelection_def copy_loop_eq Let_def
           split: if_splits option.splits sum.splits prod.splits)

lemma moveSelection_Inl:
  "moveSelection env dest fm h = Some (Inl e, fm', h') \<Longrightarrow>
   set (entries fm') \<subseteq> set (entries fm) \<and> selectedEntries fm' = selectedEntries fm \<and>
   currentDirectory fm' = currentDirectory fm"
  by (auto simp: moveSelection_def move_loop_eq Let_def
           split: if_splits option.splits sum.splits prod.splits)

lemma deleteSelection_Inl:
  "deleteSelection env fm h = (Inl e, fm', h') \<Longrightarrow>
   set (entries fm') \<subseteq> set (entries fm) \<and> selectedEntries fm' = selectedEntries fm \<and>
   currentDirectory fm' = currentDirectory fm"
  by (auto simp: deleteSelection_def delete_loop_eq Let_def
           split: if_splits option.splits sum.splits prod.splits)

lemma moveSelection_Inl_with_message:
  "throws_with_message env \<Longrightarrow> moveSelection env dest fm h = Some (Inl e, fm', h') \<Longrightarrow>
   fm' = fm"
  by (auto simp: moveSelection_def move_loop_eq Let_def move_answers_with_message
           split: if_splits option.splits sum.splits prod.splits)

lemma deleteSelection_Inl_with_message:
  "throws_with_message env \<Longrightarrow> deleteSelection env fm h = (Inl e, fm', h') \<Longrightarrow> fm' = fm"
  by (auto simp: deleteSelection_def delete_loop_eq Let_def delete_answers_with_message
           split: if_splits option.splits sum.splits prod.splits)

section \<open>Per-entry outcome of move and delete\<close>

lemma move_per_entry:
  assumes dist: "distinct (selectedEntries fm)"
    and k: "k < length (selectedEntries fm)"
    and cd: "currentDirectory fm = Some cd"
    and resolve: "resolveDestination env dest (Some cd) h = Some (Inr resolved, h1)"
    and created: "manipulator_createDirectory env h1 resolved = None"
    and messages: "ThrowsNullish \<notin> set (move_answers env cd resolved (selectedEntries fm)
           (h1 @ [CallCreateDirectory resolved]))"
  shows "\<exists>res fm'.
           moveSelection env dest fm h =
             Some (Inr res, fm',
                   (h1 @ [CallCreateDirectory resolved]) @
                   map (\<lambda>e. CallMove (path_join env cd e) (path_join env resolved e))
                     (selectedEntries fm)) \<and>
           destinationPath res = Some resolved \<and>
           (case manipulator_move env
                   ((h1 @ [CallCreateDirectory resolved]) @
                    map (\<lambda>e. CallMove (path_join env cd e) (path_join env resolved e))
                      (take k (selectedEntries fm)))
                   (path_join env cd (selectedEntries fm ! k))
                   (path_join env resolved (selectedEntries fm ! k)) of
              Done \<Rightarrow>
                selectedEntries fm ! k \<notin> set (entries fm') \<and>
                selectedEntries fm ! k \<notin> set (selectedEntries fm')
            | Throws msg \<Rightarrow>
                (selectedEntries fm ! k \<in> set (entries fm') \<longleftrightarrow>
                   selectedEntries fm ! k \<in> set (entries fm)) \<and>
                selectedEntries fm ! k \<in> set (selectedEntries fm') \<and>
                \<lparr>fileName = selectedEntries fm ! k, errorMessage = msg,
                  operationType = OpMove\<rparr> \<in> set (errors res)
            | ThrowsNullish \<Rightarrow> False)"
proof -
  let ?sel = "selectedEntries fm"
  let ?e = "?sel ! k"
  let ?h2 = "h1 @ [CallCreateDirectory resolved]"
  let ?as = "move_answers env cd resolved ?sel ?h2"
  from k have nonempty: "?sel \<noteq> []" by auto
  note run = moveSelection_completes [OF nonempty cd resolve created messages]
  have len: "length ?as = length ?sel" by (rule length_move_answers)
  have answer: "manipulator_move env
      (?h2 @ map (\<lambda>e. CallMove (path_join env cd e) (path_join env resolved e)) (take k ?sel))
      (path_join env cd ?e) (path_join env resolved ?e) = ?as ! k"
    using k by (simp add: move_answers_nth)
  have mem: "?e \<in> set ?sel" using k by simp
  have succ: "?e \<in> set (successes (zip ?sel ?as)) \<longleftrightarrow> ?as ! k = Done"
    using dist len k by (rule succeeded_iff)
  have fail: "\<lparr>fileName = ?e, errorMessage = msg, operationType = OpMove\<rparr>
      \<in> set (failures OpMove (zip ?sel ?as))" if "?as ! k = Throws msg" for msg
    using len k that by (rule failed_recorded)
  have no_null: "?as ! k \<noteq> ThrowsNullish"
    using messages k len by (metis nth_mem)
  show ?thesis
    unfolding run answer using succ fail mem no_null
    by (cases "?as ! k") auto
qed

lemma delete_per_entry:
  assumes dist: "distinct (selectedEntries fm)"
    and k: "k < length (selectedEntries fm)"
    and cd: "currentDirectory fm = Some cd"
    and messages: "ThrowsNullish \<notin> set (delete_answers env cd (selectedEntries fm) h)"
  shows "\<exists>res fm'.
           deleteSelection env fm h =
             (Inr res, fm',
              h @ map (\<lambda>e. CallDelete (path_join env cd e)) (selectedEntries fm)) \<and>
           destinationPath res = None \<and>
           (case manipulator_delete env
                   (h @ map (\<lambda>e. CallDelete (path_join env cd e)) (take k (selectedEntries fm)))
                   (path_join env cd (selectedEntries fm ! k)) of
              Done \<Rightarrow>
                selectedEntries fm ! k \<notin> set (entries fm') \<and>
                selectedEntries fm ! k \<notin> set (selectedEntries fm')
            | Throws msg \<Rightarrow>
                (selectedEntries fm ! k \<in> set (entries fm') \<longleftrightarrow>
                   selectedEntries fm ! k \<in> set (entries fm)) \<and>
                selectedEntries fm ! k \<in> set (selectedEntries fm') \<and>
                \<lparr>fileName = selectedEntries fm ! k, errorMessage = msg,
                  operationType = OpDelete\<rparr> \<in> set (errors res)
            | ThrowsNullish \<Rightarrow> False)"
proof -
  let ?sel = "selectedEntries fm"
  let ?e = "?sel ! k"
  let ?as = "delete_answers env cd ?sel h"
  from k have nonempty: "?sel \<noteq> []" by auto
  note run = deleteSelection_completes [OF nonempty cd messages]
  have len: "length ?as = length ?sel" by (rule length_delete_answers)
  have answer: "manipulator_delete env
      (h @ map (\<lambda>e. CallDelete (path_join env cd e)) (take k ?sel))
      (path_join env cd ?e) = ?as ! k"
    using k by (simp add: delete_answers_nth)
  have mem: "?e \<in> set ?sel" using k by simp
  have succ: "?e \<in> set (successes (zip ?sel ?as)) \<longleftrightarrow> ?as ! k = Done"
    using dist len k by (rule succeeded_iff)
  have fail: "\<lparr>fileName = ?e, errorMessage = msg, operationType = OpDelete\<rparr>
      \<in> set (failures OpDelete (zip ?sel ?as))" if "?as ! k = Throws msg" for msg
    using len k that by (rule failed_recorded)
  have no_null: "?as ! k \<noteq> ThrowsNullish"
    using messages k len by (metis nth_mem)
  show ?thesis
    unfolding run answer using succ fail mem no_null
    by (cases "?as ! k") auto
qed

text \<open>
  Claim C1 says that a primitive that throws does not end the batch: the entry stays where
  it is, an error record is appended, and the entries after it are attempted. The two lemmas
  above show that the code does so, for \<open>moveSelection\<close> and \<open>deleteSelection\<close>, whenever
  each thrown value has a message. The handler reads \<^verbatim>\<open>e.message\<close>, though, so a primitive
  that throws \<^verbatim>\<open>null\<close> or \<^verbatim>\<open>undefined\<close> makes the handler throw. With \<^verbatim>\<open>ok.txt\<close>,
  \<^verbatim>\<open>bad.txt\<close> and \<^verbatim>\<open>next.txt\<close> selected and the primitive throwing \<^verbatim>\<open>null\<close> on
  \<^verbatim>\<open>bad.txt\<close>, both operations end in that \<^verbatim>\<open>TypeError\<close>: no error is recorded for
  \<^verbatim>\<open>bad.txt\<close>, the primitive is never called for \<^verbatim>\<open>next.txt\<close>, and \<^verbatim>\<open>ok.txt\<close>, whose
  primitive returned, has left the entries list but is still selected.
\<close>

theorem null_throw_ends_batch:
  "moveSelection
      (throwing_null [''ok.txt'', ''bad.txt'', ''next.txt''] [''/test/dir/bad.txt''])
      (Some ''/dest'')
      (loaded [''ok.txt'', ''bad.txt'', ''next.txt''] [''ok.txt'', ''bad.txt'', ''next.txt''])
      [] =
     Some (Inl MessageOfNullish,
           loaded [''bad.txt'', ''next.txt''] [''ok.txt'', ''bad.txt'', ''next.txt''],
           [CallCreateDirectory ''/dest'', CallMove ''/test/dir/ok.txt'' ''/dest/ok.txt'',
            CallMove ''/test/dir/bad.txt'' ''/dest/bad.txt'']) \<and>
   deleteSelection
      (throwing_null [''ok.txt'', ''bad.txt'', ''next.txt''] [''/test/dir/bad.txt''])
      (loaded [''ok.txt'', ''bad.txt'', ''next.txt''] [''ok.txt'', ''bad.txt'', ''next.txt''])
      [] =
     (Inl MessageOfNullish,
      loaded [''bad.txt'', ''next.txt''] [''ok.txt'', ''bad.txt'', ''next.txt''],
      [CallDelete ''/test/dir/ok.txt'', CallDelete ''/test/dir/bad.txt''])"
  by code_simp

section \<open>Copy leaves the entries alone\<close>



section \<open>The empty selection\<close>

text \<open>
  Claim C3. Called on an empty selection, each of \<open>copySelection\<close>, \<open>moveSelection\<close> and
  \<open>deleteSelection\<close> throws the "nothing selected" error. The log it returns is the log it
  was given: no method of the Manipulator, \<open>createDirectory\<close> included, no method of the
  Explorer and no draw of the Random Provider has been called. The state returned is the
  state given, so the directory, the entries and the selection are unchanged.
\<close>

theorem empty_selection_rejected:
  assumes "selectedEntries fm = []"
  shows "copySelection env dest fm h = Some (Inl NothingSelected, fm, h) \<and>
         moveSelection env dest fm h = Some (Inl NothingSelected, fm, h) \<and>
         deleteSelection env fm h = (Inl NothingSelected, fm, h)"
  using assms by (simp add: copySelection_def moveSelection_def deleteSelection_def)

theorem empty_selection_rejected_witness:
  "selectedEntries (loaded [''a.txt''] []) = [] \<and>
   copySelection (mock [''a.txt''] [] [] []) (Some ''/dest'') (loaded [''a.txt''] []) [] =
     Some (Inl NothingSelected, loaded [''a.txt''] [], []) \<and>
   moveSelection (mock [''a.txt''] [] [] []) (Some ''/dest'') (loaded [''a.txt''] []) [] =
     Some (Inl NothingSelected, loaded [''a.txt''] [], []) \<and>
   deleteSelection (mock [''a.txt''] [] [] []) (loaded [''a.txt''] []) [] =
     (Inl NothingSelected, loaded [''a.txt''] [], [])"
proof -
  have "selectedEntries (loaded [''a.txt''] []) = []" by (simp add: loaded_def)
  from this empty_selection_rejected [OF this] show ?thesis by blast
qed

section \<open>Loading a directory\<close>

text \<open>
  Claim C9. When the Explorer answers with a list, \<open>listEntries\<close> returns that list, and the
  state afterwards has it as its entries, an empty selection, whatever was selected before
  and whichever directory was loaded before, and the given path as current directory.
\<close>

theorem listEntries_success:
  assumes "explorer_listEntries env h directoryPath = Inr es"
  shows "listEntries env directoryPath fm h =
           (Inr es,
            \<lparr>currentDirectory = Some directoryPath, entries = es, selectedEntries = []\<rparr>,
            h @ [CallListEntries directoryPath])"
  using assms by (simp add: listEntries_def)

theorem listEntries_success_witness:
  "explorer_listEntries (mock [''b.txt''] [] [] []) [] DIR = Inr [''b.txt''] \<and>
   listEntries (mock [''b.txt''] [] [] []) DIR (loaded [''a.txt''] [''a.txt'']) [] =
     (Inr [''b.txt''],
      \<lparr>currentDirectory = Some DIR, entries = [''b.txt''], selectedEntries = []\<rparr>,
      [CallListEntries DIR])"
proof -
  have "explorer_listEntries (mock [''b.txt''] [] [] []) [] DIR = Inr [''b.txt'']"
    by (simp add: mock_def)
  from this listEntries_success [OF this] show ?thesis by simp
qed

text \<open>
  Claim C7 says that a failing load leaves the whole state unchanged. The Explorer's error
  does leave \<open>listEntries\<close> as it is, and the entries and the selection stay, but the
  assignment of \<^verbatim>\<open>this.currentDirectory\<close> comes before the call of the Explorer. With
  \<^verbatim>\<open>a.txt\<close> of \<^verbatim>\<open>/test/dir\<close> selected, a failed load of \<^verbatim>\<open>/missing\<close> leaves the directory at
  \<^verbatim>\<open>/missing\<close> with the entries and the selection of \<^verbatim>\<open>/test/dir\<close>, and the next
  \<open>deleteSelection\<close> asks the Manipulator to delete \<^verbatim>\<open>/missing/a.txt\<close>.
\<close>

theorem listEntries_failure_moves_directory:
  "listEntries (mock [''a.txt''] [] [] []) ''/missing'' (loaded [''a.txt''] [''a.txt'']) [] =
     (Inl (Thrown ''ENOENT''),
      \<lparr>currentDirectory = Some ''/missing'', entries = [''a.txt''],
       selectedEntries = [''a.txt'']\<rparr>,
      [CallListEntries ''/missing'']) \<and>
   currentDirectory (loaded [''a.txt''] [''a.txt'']) = Some ''/test/dir'' \<and>
   deleteSelection (mock [''a.txt''] [] [] [])
      \<lparr>currentDirectory = Some ''/missing'', entries = [''a.txt''],
       selectedEntries = [''a.txt'']\<rparr> [CallListEntries ''/missing''] =
     (Inr \<lparr>destinationPath = None, errors = []\<rparr>,
      \<lparr>currentDirectory = Some ''/missing'', entries = [], selectedEntries = []\<rparr>,
      [CallListEntries ''/missing'', CallDelete ''/missing/a.txt''])"
  by code_simp

section \<open>An explicit destination\<close>

text \<open>
  Claim C8 speaks of every destination string. The empty string is a string a caller can
  supply, and \<^verbatim>\<open>if (destinationPath)\<close> treats it as no destination: with draws 2 and 5 the
  resolution consults the Random Provider twice and the Explorer once and returns a
  generated path, not the empty string.
\<close>

theorem empty_destination_counterexample:
  "resolveDestination (mock [''a.txt''] [2, 5] [] []) (Some []) (Some DIR) [] \<noteq>
     Some (Inr [], []) \<and>
   resolveDestination (mock [''a.txt''] [2, 5] [] []) (Some []) (Some DIR) [] =
     Some (Inr ''/test/dir/rouge-foret'',
           [CallNextInt 20, CallNextInt 20, CallExists ''/test/dir/rouge-foret'']) \<and>
   copySelection (mock [''a.txt''] [2, 5] [] []) (Some []) (loaded [''a.txt''] [''a.txt'']) [] =
     Some (Inr \<lparr>destinationPath = Some ''/test/dir/rouge-foret'', errors = []\<rparr>,
           loaded [''a.txt''] [],
           [CallNextInt 20, CallNextInt 20, CallExists ''/test/dir/rouge-foret'',
            CallCreateDirectory ''/test/dir/rouge-foret'',
            CallCopy ''/test/dir/a.txt'' ''/test/dir/rouge-foret/a.txt''])"
  by code_simp

lemma resolveDestination_explicit:
  "destination \<noteq> [] \<Longrightarrow> resolveDestination env (Some destination) cd h = Some (Inr destination, h)"
  by (cases destination) (simp_all add: resolveDestination_def)

lemma filter_consults_copy [simp]:
  "filter consults (map (\<lambda>e. CallCopy (f e) (g e)) es) = []"
  by (induction es) auto

lemma filter_consults_move [simp]:
  "filter consults (map (\<lambda>e. CallMove (f e) (g e)) es) = []"
  by (induction es) auto

text \<open>
  Claim C8, amended. For every non-empty destination string, destination resolution returns
  that string and the log it was given: it checks no existence and draws nothing.
  \<open>copySelection\<close> and \<open>moveSelection\<close> with such a destination always return, none of the
  calls they add to the log is an existence check or a draw, and when they return a result
  its \<open>destinationPath\<close> is the string supplied.
\<close>

theorem explicit_destination_unchanged:
  assumes "destination \<noteq> []"
  shows "resolveDestination env (Some destination) cd h = Some (Inr destination, h) \<and>
         (\<exists>r fm' new.
            copySelection env (Some destination) fm h = Some (r, fm', h @ new) \<and>
            filter consults new = [] \<and>
            (\<forall>res. r = Inr res \<longrightarrow> destinationPath res = Some destination)) \<and>
         (\<exists>r fm' new.
            moveSelection env (Some destination) fm h = Some (r, fm', h @ new) \<and>
            filter consults new = [] \<and>
            (\<forall>res. r = Inr res \<longrightarrow> destinationPath res = Some destination))"
proof (intro conjI)
  note explicit = resolveDestination_explicit [OF assms]
  show "resolveDestination env (Some destination) cd h = Some (Inr destination, h)"
    by (rule explicit)
  show "\<exists>r fm' new.
            copySelection env (Some destination) fm h = Some (r, fm', h @ new) \<and>
            filter consults new = [] \<and>
            (\<forall>res. r = Inr res \<longrightarrow> destinationPath res = Some destination)"
  proof (cases "selectedEntries fm = []")
    case True
    then have "copySelection env (Some destination) fm h = Some (Inl NothingSelected, fm, h @ [])"
      by (simp add: copySelection_def)
    then show ?thesis by fastforce
  next
    case False
    show ?thesis
    proof (cases "manipulator_createDirectory env h destination")
      case (Some msg)
      with False have "copySelection env (Some destination) fm h =
          Some (Inl (Thrown msg), fm, h @ [CallCreateDirectory destination])"
        by (simp add: copySelection_def explicit)
      then show ?thesis by fastforce
    next
      case None
      show ?thesis
      proof (cases "currentDirectory fm")
        case no_dir: None
        with False None have "copySelection env (Some destination) fm h =
            Some (Inl NullDirectory, fm, h @ [CallCreateDirectory destination])"
          by (simp add: copySelection_def explicit)
        then show ?thesis by fastforce
      next
        case (Some d)
        with False None have "\<exists>r fm' k.
            (\<forall>res. r = Inr res \<longrightarrow> destinationPath res = Some destination) \<and>
            copySelection env (Some destination) fm h =
            Some (r, fm', h @ (CallCreateDirectory destination #
                   map (\<lambda>e. CallCopy (path_join env d e) (path_join env destination e))
                     (take k (selectedEntries fm))))"
          by (cases "ThrowsNullish \<in> set (copy_answers env d destination (selectedEntries fm)
                       (h @ [CallCreateDirectory destination]))")
             (auto simp: copySelection_def explicit copy_loop_eq Let_def)
        then show ?thesis by fastforce
      qed
    qed
  qed
  show "\<exists>r fm' new.
            moveSelection env (Some destination) fm h = Some (r, fm', h @ new) \<and>
            filter consults new = [] \<and>
            (\<forall>res. r = Inr res \<longrightarrow> destinationPath res = Some destination)"
  proof (cases "selectedEntries fm = []")
    case True
    then have "moveSelection env (Some destination) fm h = Some (Inl NothingSelected, fm, h @ [])"
      by (simp add: moveSelection_def)
    then show ?thesis by fastforce
  next
    case False
    show ?thesis
    proof (cases "manipulator_createDirectory env h destination")
      case (Some msg)
      with False have "moveSelection env (Some destination) fm h =
          Some (Inl (Thrown msg), fm, h @ [CallCreateDirectory destination])"
        by (simp add: moveSelection_def explicit)
      then show ?thesis by fastforce
    next
      case None
      show ?thesis
      proof (cases "currentDirectory fm")
        case no_dir: None
        with False None have "moveSelection env (Some destination) fm h =
            Some (Inl NullDirectory, fm, h @ [CallCreateDirectory destination])"
          by (simp add: moveSelection_def explicit)
        then show ?thesis by fastforce
      next
        case (Some d)
        with False None have "\<exists>r fm' k.
            (\<forall>res. r = Inr res \<longrightarrow> destinationPath res = Some destination) \<and>
            moveSelection env (Some destination) fm h =
            Some (r, fm', h @ (CallCreateDirectory destination #
                   map (\<lambda>e. CallMove (path_join env d e) (path_join env destination e))
                     (take k (selectedEntries fm))))"
          by (cases "ThrowsNullish \<in> set (move_answers env d destination (selectedEntries fm)
                       (h @ [CallCreateDirectory destination]))")
             (auto simp: moveSelection_def explicit move_loop_eq Let_def)
        then show ?thesis by fastforce
      qed
    qed
  qed
qed

theorem explicit_destination_unchanged_witness:
  "''/dest'' \<noteq> [] \<and>
   resolveDestination (mock [''a.txt''] [2, 5] [True] []) (Some ''/dest'') (Some DIR) [] =
     Some (Inr ''/dest'', [])"
proof -
  have "''/dest'' \<noteq> []" by simp
  from this explicit_destination_unchanged [OF this] show ?thesis by blast
qed

section \<open>Invariants of the reachable states\<close>

lemma copySelection_frame:
  assumes "copySelection env dest fm h = Some (r, fm', h')"
  shows "entries fm' = entries fm \<and> currentDirectory fm' = currentDirectory fm \<and>
         set (selectedEntries fm') \<subseteq> set (selectedEntries fm)"
proof (cases r)
  case (Inl e)
  with assms have "fm' = fm" by (simp add: copySelection_Inl)
  then show ?thesis by simp
next
  case (Inr res)
  from copySelection_Inr [OF assms [unfolded Inr]] show ?thesis by auto
qed

lemma moveSelection_frame:
  assumes "moveSelection env dest fm h = Some (r, fm', h')"
  shows "set (entries fm') \<subseteq> set (entries fm) \<and>
         set (selectedEntries fm') \<subseteq> set (selectedEntries fm) \<and>
         currentDirectory fm' = currentDirectory fm"
proof (cases r)
  case (Inl e)
  from moveSelection_Inl [OF assms [unfolded Inl]] show ?thesis by simp
next
  case (Inr res)
  from moveSelection_Inr [OF assms [unfolded Inr]] show ?thesis by auto
qed

lemma deleteSelection_frame:
  assumes "deleteSelection env fm h = (r, fm', h')"
  shows "set (entries fm') \<subseteq> set (entries fm) \<and>
         set (selectedEntries fm') \<subseteq> set (selectedEntries fm) \<and>
         currentDirectory fm' = currentDirectory fm"
proof (cases r)
  case (Inl e)
  from deleteSelection_Inl [OF assms [unfolded Inl]] show ?thesis by simp
next
  case (Inr res)
  from deleteSelection_Inr [OF assms [unfolded Inr]] show ?thesis by auto
qed

lemma perform_directory_known:
  assumes inv: "entries fm \<noteq> [] \<or> selectedEntries fm \<noteq> [] \<longrightarrow> currentDirectory fm \<noteq> None"
    and step: "perform env op (fm, h) = Some (fm', h')"
  shows "entries fm' \<noteq> [] \<or> selectedEntries fm' \<noteq> [] \<longrightarrow> currentDirectory fm' \<noteq> None"
proof (cases op)
  case (DoListEntries p)
  with step show ?thesis
    by (auto simp: listEntries_def Let_def split: sum.splits)
next
  case (DoSelect n)
  with step inv show ?thesis
    by (auto simp: select_def split: if_splits)
next
  case (DoDeselect n)
  with step inv show ?thesis
    by (auto simp: deselect_def set_delete_def)
next
  case DoSelectAll
  with step inv show ?thesis
    by (cases "entries fm") (auto simp: selectAll_def)
next
  case DoDeselectAll
  with step inv show ?thesis
    by (auto simp: deselectAll_def)
next
  case (DoCopySelection d)
  with step obtain r where "copySelection env d fm h = Some (r, fm', h')"
    by auto
  from copySelection_frame [OF this] inv show ?thesis by auto
next
  case (DoMoveSelection d)
  with step obtain r where "moveSelection env d fm h = Some (r, fm', h')"
    by auto
  from moveSelection_frame [OF this] inv show ?thesis by auto
next
  case DoDeleteSelection
  with step obtain r where "deleteSelection env fm h = (r, fm', h')"
    by (cases "deleteSelection env fm h") auto
  from deleteSelection_frame [OF this] inv show ?thesis by auto
qed

lemma perform_all_directory_known:
  "entries fm \<noteq> [] \<or> selectedEntries fm \<noteq> [] \<longrightarrow> currentDirectory fm \<noteq> None \<Longrightarrow>
   perform_all env ops (fm, h) = Some (fm', h') \<Longrightarrow>
   entries fm' \<noteq> [] \<or> selectedEntries fm' \<noteq> [] \<longrightarrow> currentDirectory fm' \<noteq> None"
proof (induction ops arbitrary: fm h)
  case Nil
  then show ?case by simp
next
  case (Cons op ops)
  from Cons.prems(2) obtain fm1 h1 where
    first: "perform env op (fm, h) = Some (fm1, h1)"
    and rest: "perform_all env ops (fm1, h1) = Some (fm', h')"
    by (auto split: option.splits)
  from perform_directory_known [OF Cons.prems(1) first] rest show ?case
    by (rule Cons.IH)
qed

lemma perform_selection_within:
  assumes messages: "throws_with_message env"
    and inv: "set (selectedEntries fm) \<subseteq> set (entries fm)"
    and step: "perform env op (fm, h) = Some (fm', h')"
  shows "set (selectedEntries fm') \<subseteq> set (entries fm')"
proof (cases op)
  case (DoListEntries p)
  with step inv show ?thesis
    by (auto simp: listEntries_def Let_def split: sum.splits)
next
  case (DoSelect n)
  with step inv show ?thesis
    by (auto simp: select_def set_set_add split: if_splits)
next
  case (DoDeselect n)
  with step inv show ?thesis
    by (auto simp: deselect_def set_set_delete)
next
  case DoSelectAll
  with step inv show ?thesis
    by (auto simp: selectAll_def set_selectAll)
next
  case DoDeselectAll
  with step show ?thesis
    by (auto simp: deselectAll_def)
next
  case (DoCopySelection d)
  with step obtain r where "copySelection env d fm h = Some (r, fm', h')"
    by auto
  from copySelection_frame [OF this] inv show ?thesis by auto
next
  case (DoMoveSelection d)
  with step obtain r where run: "moveSelection env d fm h = Some (r, fm', h')"
    by auto
  show ?thesis
  proof (cases r)
    case (Inl e)
    from moveSelection_Inl_with_message [OF messages run [unfolded Inl]] inv
    show ?thesis by simp
  next
    case (Inr res)
    from moveSelection_Inr [OF run [unfolded Inr]] inv show ?thesis by auto
  qed
next
  case DoDeleteSelection
  with step obtain r where run: "deleteSelection env fm h = (r, fm', h')"
    by (cases "deleteSelection env fm h") auto
  show ?thesis
  proof (cases r)
    case (Inl e)
    from deleteSelection_Inl_with_message [OF messages run [unfolded Inl]] inv
    show ?thesis by simp
  next
    case (Inr res)
    from deleteSelection_Inr [OF run [unfolded Inr]] inv show ?thesis by auto
  qed
qed

lemma selection_within_with_message:
  "throws_with_message env \<Longrightarrow>
   set (selectedEntries fm) \<subseteq> set (entries fm) \<Longrightarrow>
   perform_all env ops (fm, h) = Some (fm', h') \<Longrightarrow>
   set (selectedEntries fm') \<subseteq> set (entries fm')"
proof (induction ops arbitrary: fm h)
  case Nil
  then show ?case by simp
next
  case (Cons op ops)
  from Cons.prems(3) obtain fm1 h1 where
    first: "perform env op (fm, h) = Some (fm1, h1)"
    and rest: "perform_all env ops (fm1, h1) = Some (fm', h')"
    by (auto split: option.splits)
  from Cons.prems(1) perform_selection_within [OF Cons.prems(1,2) first] rest show ?case
    by (rule Cons.IH)
qed

lemma perform_distinct:
  assumes inv: "distinct (selectedEntries fm)"
    and step: "perform env op (fm, h) = Some (fm', h')"
  shows "distinct (selectedEntries fm')"
proof (cases op)
  case (DoListEntries p)
  with step inv show ?thesis
    by (auto simp: listEntries_def Let_def split: sum.splits)
next
  case (DoSelect n)
  with step inv show ?thesis
    by (auto simp: select_def distinct_set_add split: if_splits)
next
  case (DoDeselect n)
  with step inv show ?thesis
    by (auto simp: deselect_def distinct_set_delete)
next
  case DoSelectAll
  with step inv show ?thesis
    by (auto simp: selectAll_def distinct_selectAll)
next
  case DoDeselectAll
  with step show ?thesis
    by (auto simp: deselectAll_def)
next
  case (DoCopySelection d)
  with step obtain r where run: "copySelection env d fm h = Some (r, fm', h')"
    by auto
  show ?thesis
  proof (cases r)
    case (Inl e)
    with run inv show ?thesis by (auto dest: copySelection_Inl)
  next
    case (Inr res)
    from copySelection_Inr [OF run [unfolded Inr]] inv show ?thesis by auto
  qed
next
  case (DoMoveSelection d)
  with step obtain r where run: "moveSelection env d fm h = Some (r, fm', h')"
    by auto
  show ?thesis
  proof (cases r)
    case (Inl e)
    from moveSelection_Inl [OF run [unfolded Inl]] inv show ?thesis by simp
  next
    case (Inr res)
    from moveSelection_Inr [OF run [unfolded Inr]] inv show ?thesis by auto
  qed
next
  case DoDeleteSelection
  with step obtain r where run: "deleteSelection env fm h = (r, fm', h')"
    by (cases "deleteSelection env fm h") auto
  show ?thesis
  proof (cases r)
    case (Inl e)
    from deleteSelection_Inl [OF run [unfolded Inl]] inv show ?thesis by simp
  next
    case (Inr res)
    from deleteSelection_Inr [OF run [unfolded Inr]] inv show ?thesis by auto
  qed
qed

lemma reachable_distinct:
  "distinct (selectedEntries fm) \<Longrightarrow>
   perform_all env ops (fm, h) = Some (fm', h') \<Longrightarrow>
   distinct (selectedEntries fm')"
proof (induction ops arbitrary: fm h)
  case Nil
  then show ?case by simp
next
  case (Cons op ops)
  from Cons.prems(2) obtain fm1 h1 where
    first: "perform env op (fm, h) = Some (fm1, h1)"
    and rest: "perform_all env ops (fm1, h1) = Some (fm', h')"
    by (auto split: option.splits)
  from perform_distinct [OF Cons.prems(1) first] rest show ?case
    by (rule Cons.IH)
qed

text \<open>
  Claim C2 says that after every public operation each selected name is in the entries
  list, whatever the collaborators do. \<open>selection_within_with_message\<close> shows that the code
  keeps this in every state reached with a Manipulator whose thrown values have a message:
  the closing loop of a batch deselects what the loop has removed from the entries. When a
  primitive throws \<^verbatim>\<open>null\<close> or \<^verbatim>\<open>undefined\<close>, the handler throws on \<^verbatim>\<open>e.message\<close> and
  \<open>moveSelection\<close> and \<open>deleteSelection\<close> end after \<^verbatim>\<open>this.entries\<close> was filtered and before
  the closing loop. From a new \<^verbatim>\<open>FileManager\<close>, loading \<^verbatim>\<open>ok.txt\<close> and \<^verbatim>\<open>bad.txt\<close>,
  selecting all and moving, with the primitive throwing \<^verbatim>\<open>null\<close> on \<^verbatim>\<open>bad.txt\<close>, ends in a
  state where \<^verbatim>\<open>ok.txt\<close> is selected and is not an entry.
\<close>

theorem null_throw_breaks_selection_within:
  "perform_all (throwing_null [''ok.txt'', ''bad.txt''] [''/test/dir/bad.txt''])
      [DoListEntries DIR, DoSelectAll, DoMoveSelection (Some ''/dest'')] (initial, []) =
     Some (loaded [''bad.txt''] [''ok.txt'', ''bad.txt''],
           [CallListEntries ''/test/dir'', CallCreateDirectory ''/dest'',
            CallMove ''/test/dir/ok.txt'' ''/dest/ok.txt'',
            CallMove ''/test/dir/bad.txt'' ''/dest/bad.txt'']) \<and>
   \<not> set (selectedEntries (loaded [''bad.txt''] [''ok.txt'', ''bad.txt'']))
       \<subseteq> set (entries (loaded [''bad.txt''] [''ok.txt'', ''bad.txt'']))"
proof -
  have run: "perform_all (throwing_null [''ok.txt'', ''bad.txt''] [''/test/dir/bad.txt''])
      [DoListEntries DIR, DoSelectAll, DoMoveSelection (Some ''/dest'')] (initial, []) =
     Some (loaded [''bad.txt''] [''ok.txt'', ''bad.txt''],
           [CallListEntries ''/test/dir'', CallCreateDirectory ''/dest'',
            CallMove ''/test/dir/ok.txt'' ''/dest/ok.txt'',
            CallMove ''/test/dir/bad.txt'' ''/dest/bad.txt''])"
    by code_simp
  have "\<not> set (selectedEntries (loaded [''bad.txt''] [''ok.txt'', ''bad.txt'']))
       \<subseteq> set (entries (loaded [''bad.txt''] [''ok.txt'', ''bad.txt'']))"
    by (simp add: loaded_def)
  with run show ?thesis by blast
qed

section \<open>The current directory is known when something is selected\<close>

lemma attempts_directory_aux:
  "10 - attempt = m \<Longrightarrow> fst (attempts env (Some d) attempt name h) \<noteq> Threw NullDirectory"
proof (induction m arbitrary: attempt name h)
  case 0
  then show ?case by (subst attempts.simps) simp
next
  case (Suc m)
  then have next_attempt: "10 - Suc attempt = m" by simp
  note IH = Suc.IH [OF next_attempt]
  show ?case
    by (subst attempts.simps) (simp add: Let_def IH split: sum.splits)
qed

lemma attempts_directory:
  "fst (attempts env (Some d) attempt name h) \<noteq> Threw NullDirectory"
  by (rule attempts_directory_aux [OF refl])

lemma numbering_directory:
  assumes "numbering env d name counter h = Some y"
  shows "fst y \<noteq> Inl NullDirectory"
  by (rule numbering.raw_induct
        [where P = "\<lambda>env d name counter h y. fst y \<noteq> Inl NullDirectory", OF _ assms])
     (auto simp: Let_def split: sum.splits if_splits)

lemma resolveDestination_directory:
  assumes "resolveDestination env dest (Some d) h = Some (r, h1)"
  shows "r \<noteq> Inl NullDirectory"
proof -
  obtain a h2 where att: "attempts env (Some d) 0 [] h = (a, h2)"
    by (cases "attempts env (Some d) 0 [] h")
  from attempts_directory [of env d 0 "[]" h] att have "a \<noteq> Threw NullDirectory"
    by simp
  with assms att show ?thesis
    by (cases a)
       (auto simp: resolveDestination_def split: option.splits list.splits
             dest: numbering_directory)
qed

lemma copySelection_directory:
  assumes known: "selectedEntries fm \<noteq> [] \<longrightarrow> currentDirectory fm \<noteq> None"
    and run: "copySelection env dest fm h = Some (r, fm', h')"
  shows "r \<noteq> Inl NullDirectory"
proof (cases "selectedEntries fm = []")
  case True
  with run show ?thesis by (auto simp: copySelection_def)
next
  case False
  with known obtain d where d: "currentDirectory fm = Some d" by auto
  from run False d show ?thesis
    by (auto simp: copySelection_def Let_def
             split: option.splits sum.splits prod.splits if_splits
             dest: resolveDestination_directory)
qed

lemma moveSelection_directory:
  assumes known: "selectedEntries fm \<noteq> [] \<longrightarrow> currentDirectory fm \<noteq> None"
    and run: "moveSelection env dest fm h = Some (r, fm', h')"
  shows "r \<noteq> Inl NullDirectory"
proof (cases "selectedEntries fm = []")
  case True
  with run show ?thesis by (auto simp: moveSelection_def)
next
  case False
  with known obtain d where d: "currentDirectory fm = Some d" by auto
  from run False d show ?thesis
    by (auto simp: moveSelection_def Let_def
             split: option.splits sum.splits prod.splits if_splits
             dest: resolveDestination_directory)
qed

lemma deleteSelection_directory:
  assumes known: "selectedEntries fm \<noteq> [] \<longrightarrow> currentDirectory fm \<noteq> None"
  shows "fst (deleteSelection env fm h) \<noteq> Inl NullDirectory"
proof (cases "selectedEntries fm = []")
  case True
  then show ?thesis by (simp add: deleteSelection_def)
next
  case False
  with known obtain d where d: "currentDirectory fm = Some d" by auto
  from False d show ?thesis
    by (simp add: deleteSelection_def split: prod.splits)
qed

text \<open>
  Claim C10. In every state reached from a new \<^verbatim>\<open>FileManager\<close> by public operations, a
  non-empty selection comes with a current directory that is not \<^verbatim>\<open>null\<close>. So in such a
  state none of \<open>copySelection\<close>, \<open>moveSelection\<close> and \<open>deleteSelection\<close>, destination
  resolution included, ends in the \<^verbatim>\<open>TypeError\<close> of a \<^verbatim>\<open>path.join\<close> on a \<^verbatim>\<open>null\<close>
  directory.
\<close>

theorem directory_known_when_selected:
  assumes run: "perform_all env ops (initial, h0) = Some (fm, h)"
  shows "(selectedEntries fm \<noteq> [] \<longrightarrow> currentDirectory fm \<noteq> None) \<and>
         (\<forall>dest r fm' h'.
            copySelection env dest fm h = Some (r, fm', h') \<longrightarrow> r \<noteq> Inl NullDirectory) \<and>
         (\<forall>dest r fm' h'.
            moveSelection env dest fm h = Some (r, fm', h') \<longrightarrow> r \<noteq> Inl NullDirectory) \<and>
         fst (deleteSelection env fm h) \<noteq> Inl NullDirectory"
proof -
  have "entries initial \<noteq> [] \<or> selectedEntries initial \<noteq> [] \<longrightarrow>
        currentDirectory initial \<noteq> None"
    by (simp add: initial_def)
  from this run have "entries fm \<noteq> [] \<or> selectedEntries fm \<noteq> [] \<longrightarrow>
        currentDirectory fm \<noteq> None"
    by (rule perform_all_directory_known)
  then have known: "selectedEntries fm \<noteq> [] \<longrightarrow> currentDirectory fm \<noteq> None"
    by simp
  from known copySelection_directory [OF known] moveSelection_directory [OF known]
    deleteSelection_directory [OF known]
  show ?thesis by blast
qed

theorem directory_known_when_selected_witness:
  "perform_all (mock [''a.txt'', ''b.txt''] [] [] [''/test/dir/a.txt''])
      [DoListEntries DIR, DoSelect ''a.txt'', DoCopySelection None] (initial, []) =
     Some (loaded [''a.txt'', ''b.txt''] [''a.txt''],
           [CallListEntries ''/test/dir'', CallNextInt 20, CallNextInt 20,
            CallExists ''/test/dir/grand-soleil'', CallCreateDirectory ''/test/dir/grand-soleil'',
            CallCopy ''/test/dir/a.txt'' ''/test/dir/grand-soleil/a.txt'']) \<and>
   selectedEntries (loaded [''a.txt'', ''b.txt''] [''a.txt'']) \<noteq> [] \<and>
   currentDirectory (loaded [''a.txt'', ''b.txt''] [''a.txt'']) \<noteq> None"
proof -
  have run: "perform_all (mock [''a.txt'', ''b.txt''] [] [] [''/test/dir/a.txt''])
      [DoListEntries DIR, DoSelect ''a.txt'', DoCopySelection None] (initial, []) =
     Some (loaded [''a.txt'', ''b.txt''] [''a.txt''],
           [CallListEntries ''/test/dir'', CallNextInt 20, CallNextInt 20,
            CallExists ''/test/dir/grand-soleil'', CallCreateDirectory ''/test/dir/grand-soleil'',
            CallCopy ''/test/dir/a.txt'' ''/test/dir/grand-soleil/a.txt''])"
    by code_simp
  have selected: "selectedEntries (loaded [''a.txt'', ''b.txt''] [''a.txt'']) \<noteq> []"
    by (simp add: loaded_def)
  from directory_known_when_selected [OF run] selected
  have "currentDirectory (loaded [''a.txt'', ''b.txt''] [''a.txt'']) \<noteq> None"
    by blast
  with run selected show ?thesis by blast
qed

section \<open>Generated destinations\<close>

lemma log_after_0: "log_after env d a n h 0 = h"
  by (simp add: log_after_def)

lemma log_after_Suc:
  "log_after env d a n h (Suc k) = log_after env d a n h k @ attempt_calls env d a n k"
  by (simp add: log_after_def)

lemma attempts_exhausted: "attempts env cd 10 name h = (Exhausted name, h)"
  by (subst attempts.simps) simp

lemma attempts_collides:
  assumes "k < 10" "drawn env d a n h k" "candidate_exists env d a n h k = Inr True"
  shows "attempts env (Some d) k name (log_after env d a n h k) =
         attempts env (Some d) (Suc k) (candidate a n k) (log_after env d a n h (Suc k))"
  using assms
  by (subst attempts.simps)
     (simp add: drawn_def candidate_exists_def log_after_Suc attempt_calls_def candidate_def
        Let_def)

lemma attempts_free:
  assumes "k < 10" "drawn env d a n h k" "candidate_exists env d a n h k = Inr False"
  shows "attempts env (Some d) k name (log_after env d a n h k) =
         (Free (path_join env d (candidate a n k)), log_after env d a n h (Suc k))"
  using assms
  by (subst attempts.simps)
     (simp add: drawn_def candidate_exists_def log_after_Suc attempt_calls_def candidate_def
        Let_def)

lemma attempts_first_free:
  assumes "j < 10"
    and "\<forall>k\<le>j. drawn env d a n h k"
    and "\<forall>k<j. candidate_exists env d a n h k = Inr True"
    and "candidate_exists env d a n h j = Inr False"
  shows "j - t = m \<Longrightarrow> t \<le> j \<Longrightarrow>
         attempts env (Some d) t name (log_after env d a n h t) =
         (Free (path_join env d (candidate a n j)), log_after env d a n h (Suc j))"
proof (induction m arbitrary: t name)
  case 0
  then have "t = j" by simp
  with assms show ?case by (simp add: attempts_free)
next
  case (Suc m)
  then have t: "t < j" "t < 10" "j - Suc t = m" "Suc t \<le> j"
    using assms(1) by simp_all
  from assms(2,3) t(1) have "drawn env d a n h t" "candidate_exists env d a n h t = Inr True"
    by simp_all
  with t(2) have "attempts env (Some d) t name (log_after env d a n h t) =
      attempts env (Some d) (Suc t) (candidate a n t) (log_after env d a n h (Suc t))"
    by (rule attempts_collides)
  also have "\<dots> = (Free (path_join env d (candidate a n j)), log_after env d a n h (Suc j))"
    using t(3,4) by (rule Suc.IH)
  finally show ?case .
qed

lemma attempts_all_collide:
  assumes "\<forall>k<10. drawn env d a n h k \<and> candidate_exists env d a n h k = Inr True"
  shows "10 - t = m \<Longrightarrow> t < 10 \<Longrightarrow>
         attempts env (Some d) t name (log_after env d a n h t) =
         (Exhausted (candidate a n 9), log_after env d a n h 10)"
proof (induction m arbitrary: t name)
  case 0
  then show ?case by simp
next
  case (Suc m)
  from assms Suc.prems(2) have
    step: "attempts env (Some d) t name (log_after env d a n h t) =
      attempts env (Some d) (Suc t) (candidate a n t) (log_after env d a n h (Suc t))"
    by (simp add: attempts_collides)
  show ?case
  proof (cases "t = 9")
    case True
    with step show ?thesis by (simp add: attempts_exhausted)
  next
    case False
    with Suc.prems have "10 - Suc t = m" "Suc t < 10" by simp_all
    then have "attempts env (Some d) (Suc t) (candidate a n t) (log_after env d a n h (Suc t)) =
        (Exhausted (candidate a n 9), log_after env d a n h 10)"
      by (rule Suc.IH)
    with step show ?thesis by simp
  qed
qed

lemma probe_log_Suc:
  "1 \<le> c \<Longrightarrow> probe_log env d name h (Suc c) =
     probe_log env d name h c @ [CallExists (numbered env d name c)]"
  by (simp add: probe_log_def)

lemma numbering_first_free:
  assumes "\<forall>c. 1 \<le> c \<and> c \<le> m \<longrightarrow> numbered_exists env d name h c = Inr True"
    and "numbered_exists env d name h (Suc m) = Inr False"
  shows "Suc m - c = r \<Longrightarrow> 1 \<le> c \<Longrightarrow> c \<le> Suc m \<Longrightarrow>
         numbering env d name c (probe_log env d name h c) =
         Some (Inr (numbered env d name (Suc m)), probe_log env d name h (Suc (Suc m)))"
proof (induction r arbitrary: c)
  case 0
  then have "c = Suc m" by simp
  with assms(2) show ?case
    by (subst numbering.simps)
       (simp add: numbered_exists_def numbered_def probe_log_Suc Let_def)
next
  case (Suc r)
  then have c: "1 \<le> c" "c \<le> m" "Suc m - Suc c = r" "1 \<le> Suc c" "Suc c \<le> Suc m"
    by simp_all
  from assms(1) c(1,2) have "numbered_exists env d name h c = Inr True" by simp
  with c(1) have "numbering env d name c (probe_log env d name h c) =
      numbering env d name (Suc c) (probe_log env d name h (Suc c))"
    by (subst numbering.simps)
       (simp add: numbered_exists_def numbered_def probe_log_Suc Let_def)
  also have "\<dots> = Some (Inr (numbered env d name (Suc m)), probe_log env d name h (Suc (Suc m)))"
    using c(3,4,5) by (rule Suc.IH)
  finally show ?case .
qed

lemma draws_log_after:
  "length (filter is_draw (log_after env d a n h k)) = length (filter is_draw h) + 2 * k"
  by (induction k) (simp_all add: log_after_0 log_after_Suc attempt_calls_def)

lemma checks_log_after:
  "length (filter is_exists (log_after env d a n h k)) = length (filter is_exists h) + k"
  by (induction k) (simp_all add: log_after_0 log_after_Suc attempt_calls_def)

lemma checks_probe_log:
  "length (filter is_exists (probe_log env d name h c)) = length (filter is_exists h) + (c - 1)"
proof -
  have "filter is_exists (map (\<lambda>i. CallExists (numbered env d name i)) xs) =
        map (\<lambda>i. CallExists (numbered env d name i)) xs" for xs
    by (induction xs) simp_all
  then show ?thesis by (simp add: probe_log_def)
qed

text \<open>
  Claim C4. Without a destination, the resolved path is determined by the answers of
  \<open>nextInt\<close> and \<open>exists\<close>. Let attempt \<open>k\<close> draw the adjective index \<open>a k\<close> and then the
  noun index \<open>n k\<close>, let the candidates of the attempts before attempt \<open>j\<close> exist and the
  candidate of attempt \<open>j\<close>, one of the ten, not exist. Then resolution returns the joined
  path of candidate \<open>j\<close>, the adjective, a hyphen and the noun, at once: the log has grown by
  the two draws and the one existence check of each attempt up to \<open>j\<close> and by nothing else,
  which is \<open>j + 1\<close> existence checks, two when the first candidate exists and the second does
  not. With the draws 2 and 5 the candidate is \<^verbatim>\<open>ADJECTIVES[2] + "-" + NOUNS[5]\<close>, and a
  \<open>copySelection\<close> without destination that returns a result has that resolved path as its
  \<open>destinationPath\<close>.
\<close>

theorem first_free_candidate:
  assumes j: "j < 10"
    and draws: "\<forall>k\<le>j. drawn env d a n h k"
    and taken: "\<forall>k<j. candidate_exists env d a n h k = Inr True"
    and free: "candidate_exists env d a n h j = Inr False"
  shows "resolveDestination env None (Some d) h =
           Some (Inr (path_join env d (candidate a n j)), log_after env d a n h (Suc j)) \<and>
         length (filter is_exists (log_after env d a n h (Suc j))) =
           length (filter is_exists h) + Suc j \<and>
         length (filter is_draw (log_after env d a n h (Suc j))) =
           length (filter is_draw h) + 2 * Suc j \<and>
         (a j = 2 \<and> n j = 5 \<longrightarrow> candidate a n j = ADJECTIVES ! 2 @ ''-'' @ NOUNS ! 5) \<and>
         (\<forall>fm res fm' h'.
            currentDirectory fm = Some d \<and>
            copySelection env None fm h = Some (Inr res, fm', h') \<longrightarrow>
            destinationPath res = Some (path_join env d (candidate a n j)))"
proof (intro conjI allI impI)
  have "attempts env (Some d) 0 [] (log_after env d a n h 0) =
          (Free (path_join env d (candidate a n j)), log_after env d a n h (Suc j))"
    using j draws taken free by (rule attempts_first_free) simp_all
  then show resolved: "resolveDestination env None (Some d) h =
           Some (Inr (path_join env d (candidate a n j)), log_after env d a n h (Suc j))"
    by (simp add: resolveDestination_def log_after_0)
  show "length (filter is_exists (log_after env d a n h (Suc j))) =
           length (filter is_exists h) + Suc j"
    by (rule checks_log_after)
  show "length (filter is_draw (log_after env d a n h (Suc j))) =
           length (filter is_draw h) + 2 * Suc j"
    by (rule draws_log_after)
  show "candidate a n j = ADJECTIVES ! 2 @ ''-'' @ NOUNS ! 5" if "a j = 2 \<and> n j = 5"
    using that by (simp add: candidate_def word_at_def ADJECTIVES_def NOUNS_def)
  show "destinationPath res = Some (path_join env d (candidate a n j))"
    if "currentDirectory fm = Some d \<and> copySelection env None fm h = Some (Inr res, fm', h')"
    for fm res fm' h'
    using copySelection_Inr [of env None fm h res fm' h'] that resolved by auto
qed

theorem first_free_candidate_witness:
  "(1::nat) < 10 \<and>
   drawn (mock [''a.txt''] [0, 0, 1, 1] [True] []) DIR int int [] 0 \<and>
   drawn (mock [''a.txt''] [0, 0, 1, 1] [True] []) DIR int int [] 1 \<and>
   candidate_exists (mock [''a.txt''] [0, 0, 1, 1] [True] []) DIR int int [] 0 = Inr True \<and>
   candidate_exists (mock [''a.txt''] [0, 0, 1, 1] [True] []) DIR int int [] 1 = Inr False \<and>
   resolveDestination (mock [''a.txt''] [0, 0, 1, 1] [True] []) None (Some DIR) [] =
     Some (Inr ''/test/dir/petit-lune'',
           [CallNextInt 20, CallNextInt 20, CallExists ''/test/dir/grand-soleil'',
            CallNextInt 20, CallNextInt 20, CallExists ''/test/dir/petit-lune'']) \<and>
   copySelection (mock [''a.txt''] [2, 5] [] []) None (loaded [''a.txt''] [''a.txt'']) [] =
     Some (Inr \<lparr>destinationPath = Some ''/test/dir/rouge-foret'', errors = []\<rparr>,
           loaded [''a.txt''] [],
           [CallNextInt 20, CallNextInt 20, CallExists ''/test/dir/rouge-foret'',
            CallCreateDirectory ''/test/dir/rouge-foret'',
            CallCopy ''/test/dir/a.txt'' ''/test/dir/rouge-foret/a.txt''])"
proof -
  let ?env = "mock [''a.txt''] [0, 0, 1, 1] [True] []"
  have example: "copySelection (mock [''a.txt''] [2, 5] [] []) None
       (loaded [''a.txt''] [''a.txt'']) [] =
     Some (Inr \<lparr>destinationPath = Some ''/test/dir/rouge-foret'', errors = []\<rparr>,
           loaded [''a.txt''] [],
           [CallNextInt 20, CallNextInt 20, CallExists ''/test/dir/rouge-foret'',
            CallCreateDirectory ''/test/dir/rouge-foret'',
            CallCopy ''/test/dir/a.txt'' ''/test/dir/rouge-foret/a.txt''])"
    by code_simp
  have unfold: "log_after ?env DIR int int [] 0 = []"
    "log_after ?env DIR int int [] 1 =
       [CallNextInt 20, CallNextInt 20, CallExists ''/test/dir/grand-soleil'']"
    "log_after ?env DIR int int [] 2 =
       [CallNextInt 20, CallNextInt 20, CallExists ''/test/dir/grand-soleil'',
        CallNextInt 20, CallNextInt 20, CallExists ''/test/dir/petit-lune'']"
    by code_simp+
  have d0: "drawn ?env DIR int int [] 0"
    unfolding drawn_def unfold by (simp add: mock_def nth_or_def ADJECTIVES_def NOUNS_def)
  have d1: "drawn ?env DIR int int [] 1"
    unfolding drawn_def unfold by (simp add: mock_def nth_or_def ADJECTIVES_def NOUNS_def)
  have draws: "\<forall>k\<le>1. drawn ?env DIR int int [] k"
  proof (intro allI impI)
    fix k :: nat
    assume "k \<le> 1"
    then have "k = 0 \<or> k = 1" by auto
    with d0 d1 show "drawn ?env DIR int int [] k" by auto
  qed
  have c0: "candidate_exists ?env DIR int int [] 0 = Inr True"
    unfolding candidate_exists_def unfold
    by (simp add: mock_def nth_or_def ADJECTIVES_def NOUNS_def)
  have taken: "\<forall>k<1. candidate_exists ?env DIR int int [] k = Inr True"
    using c0 by simp
  have free: "candidate_exists ?env DIR int int [] 1 = Inr False"
    unfolding candidate_exists_def unfold
    by (simp add: mock_def nth_or_def ADJECTIVES_def NOUNS_def)
  have j: "(1::nat) < 10" by simp
  have path: "path_join ?env DIR (candidate int int 1) = ''/test/dir/petit-lune''"
    by code_simp
  have log2: "log_after ?env DIR int int [] (Suc 1) =
       [CallNextInt 20, CallNextInt 20, CallExists ''/test/dir/grand-soleil'',
        CallNextInt 20, CallNextInt 20, CallExists ''/test/dir/petit-lune'']"
    by code_simp
  from first_free_candidate [OF j draws taken free, THEN conjunct1]
  have "resolveDestination ?env None (Some DIR) [] =
     Some (Inr ''/test/dir/petit-lune'',
           [CallNextInt 20, CallNextInt 20, CallExists ''/test/dir/grand-soleil'',
            CallNextInt 20, CallNextInt 20, CallExists ''/test/dir/petit-lune''])"
    unfolding path log2 .
  with j d0 d1 c0 free example show ?thesis by blast
qed

text \<open>
  Claim C5. Let all ten attempts collide: each candidate path exists. Then the name
  generated in the tenth attempt is kept as base, and the paths of the base with the suffix
  \<^verbatim>\<open>-1\<close>, \<^verbatim>\<open>-2\<close>, and so on are probed in this order, the counter going up by one. If the
  Explorer answers that the paths for the counters 1 to \<open>m\<close> exist and that the path for
  \<open>m + 1\<close> does not, resolution returns the path numbered \<open>m + 1\<close>, and after the ten attempts
  the log holds exactly the existence checks of the counters 1 to \<open>m + 1\<close>.
\<close>

theorem numbered_after_ten_collisions:
  assumes collide: "\<forall>k<10. drawn env d a n h k \<and> candidate_exists env d a n h k = Inr True"
    and taken: "\<forall>c. 1 \<le> c \<and> c \<le> m \<longrightarrow>
        numbered_exists env d (candidate a n 9) (log_after env d a n h 10) c = Inr True"
    and free: "numbered_exists env d (candidate a n 9) (log_after env d a n h 10) (Suc m) =
        Inr False"
  shows "resolveDestination env None (Some d) h =
           Some (Inr (path_join env d (candidate a n 9 @ ''-'' @ decimal (Suc m))),
                 log_after env d a n h 10 @
                 map (\<lambda>c. CallExists (path_join env d (candidate a n 9 @ ''-'' @ decimal c)))
                   [1..<Suc (Suc m)])"
proof -
  have "attempts env (Some d) 0 [] (log_after env d a n h 0) =
          (Exhausted (candidate a n 9), log_after env d a n h 10)"
    using collide by (rule attempts_all_collide) simp_all
  then have "resolveDestination env None (Some d) h =
      numbering env d (candidate a n 9) 1 (log_after env d a n h 10)"
    by (simp add: resolveDestination_def log_after_0)
  also have "\<dots> = numbering env d (candidate a n 9) 1
      (probe_log env d (candidate a n 9) (log_after env d a n h 10) 1)"
    by (simp add: probe_log_def)
  also have "\<dots> = Some (Inr (numbered env d (candidate a n 9) (Suc m)),
      probe_log env d (candidate a n 9) (log_after env d a n h 10) (Suc (Suc m)))"
    using taken free by (rule numbering_first_free) simp_all
  finally show ?thesis
    by (simp add: numbered_def probe_log_def del: upt_Suc)
qed

theorem numbered_after_ten_collisions_witness:
  "drawn (mock [''a.txt''] (replicate 20 5) (replicate 11 True) []) DIR
     (\<lambda>k. 5) (\<lambda>k. 5) [] 9 \<and>
   candidate_exists (mock [''a.txt''] (replicate 20 5) (replicate 11 True) []) DIR
     (\<lambda>k. 5) (\<lambda>k. 5) [] 9 = Inr True \<and>
   numbered_exists (mock [''a.txt''] (replicate 20 5) (replicate 11 True) []) DIR
     (candidate (\<lambda>k. 5) (\<lambda>k. 5) 9)
     (log_after (mock [''a.txt''] (replicate 20 5) (replicate 11 True) []) DIR
        (\<lambda>k. 5) (\<lambda>k. 5) [] 10) 1 = Inr True \<and>
   numbered_exists (mock [''a.txt''] (replicate 20 5) (replicate 11 True) []) DIR
     (candidate (\<lambda>k. 5) (\<lambda>k. 5) 9)
     (log_after (mock [''a.txt''] (replicate 20 5) (replicate 11 True) []) DIR
        (\<lambda>k. 5) (\<lambda>k. 5) [] 10) (Suc 1) = Inr False \<and>
   resolveDestination (mock [''a.txt''] (replicate 20 5) (replicate 11 True) []) None
       (Some DIR) [] =
     Some (Inr ''/test/dir/rapide-foret-2'',
           concat (replicate 10
             [CallNextInt 20, CallNextInt 20, CallExists ''/test/dir/rapide-foret'']) @
           [CallExists ''/test/dir/rapide-foret-1'', CallExists ''/test/dir/rapide-foret-2''])"
proof -
  let ?env = "mock [''a.txt''] (replicate 20 5) (replicate 11 True) []"
  let ?a = "\<lambda>k::nat. 5::int"
  have draw: "random_nextInt ?env h m = Inr 5" if "length (filter is_draw h) < 20" for h m
    using that by (simp add: mock_def nth_or_def)
  have check: "explorer_exists ?env h p = Inr (length (filter is_exists h) < 11)" for h p
    by (simp add: mock_def nth_or_def)
  have collide: "\<forall>k<10. drawn ?env DIR ?a ?a [] k \<and> candidate_exists ?env DIR ?a ?a [] k = Inr True"
    by (simp add: drawn_def candidate_exists_def draw check draws_log_after checks_log_after)
  have taken: "\<forall>c. 1 \<le> c \<and> c \<le> 1 \<longrightarrow>
      numbered_exists ?env DIR (candidate ?a ?a 9) (log_after ?env DIR ?a ?a [] 10) c = Inr True"
    by (simp add: numbered_exists_def check checks_probe_log checks_log_after)
  have free: "numbered_exists ?env DIR (candidate ?a ?a 9) (log_after ?env DIR ?a ?a [] 10) (Suc 1) =
      Inr False"
    by (simp add: numbered_exists_def check checks_probe_log checks_log_after)
  have path: "path_join ?env DIR (candidate ?a ?a 9 @ ''-'' @ decimal (Suc 1)) =
      ''/test/dir/rapide-foret-2''"
    by code_simp
  have log: "log_after ?env DIR ?a ?a [] 10 @
      map (\<lambda>c. CallExists (path_join ?env DIR (candidate ?a ?a 9 @ ''-'' @ decimal c)))
        [1..<Suc (Suc 1)] =
      concat (replicate 10
        [CallNextInt 20, CallNextInt 20, CallExists ''/test/dir/rapide-foret'']) @
      [CallExists ''/test/dir/rapide-foret-1'', CallExists ''/test/dir/rapide-foret-2'']"
    by code_simp
  from numbered_after_ten_collisions [OF collide taken free]
  have "resolveDestination ?env None (Some DIR) [] =
     Some (Inr ''/test/dir/rapide-foret-2'',
           concat (replicate 10
             [CallNextInt 20, CallNextInt 20, CallExists ''/test/dir/rapide-foret'']) @
           [CallExists ''/test/dir/rapide-foret-1'', CallExists ''/test/dir/rapide-foret-2''])"
    unfolding path log .
  moreover from collide have "drawn ?env DIR ?a ?a [] 9"
    and "candidate_exists ?env DIR ?a ?a [] 9 = Inr True"
    by simp_all
  moreover from taken have
    "numbered_exists ?env DIR (candidate ?a ?a 9) (log_after ?env DIR ?a ?a [] 10) 1 = Inr True"
    by simp
  ultimately show ?thesis using free by blast
qed

end
